theory Spec2Isabelle
  imports Main "HOL-Library.Word"
begin

section \<open>The ledger program: EvolvingNexusCounter (contract.sol)\<close>

text \<open>
  Solidity's \<open>uint256\<close> and \<open>address\<close> are machine words. The contract is compiled
  with Solidity 0.8, where \<open>+\<close>, \<open>-\<close> and \<open>++\<close> revert (Panic) instead of wrapping, and an
  array access out of range reverts as well. A revert is a value of type \<open>error\<close>; a function
  of the contract returns \<open>error + contract\<close>.
\<close>

type_synonym uint256 = "256 word"
type_synonym address = "160 word"

datatype error =
    MustPayExactFee
  | ActionLocked
  | CounterAlreadyZero
  | Panic
  | NotPayable
  | OwnableUnauthorizedAccount
  | ERC721InvalidReceiver
  | ERC721InvalidSender
  | TransferFailed

datatype event =
    CounterChanged address int uint256
  | BadgeAssigned address uint256 uint256
  | FeeUpdated uint256
  | BadgeThresholdsUpdated
  | CounterReset uint256
  | Transfer address address uint256

record UserStats =
  increments :: uint256
  decrements :: uint256
  lastActionTime :: uint256
  badgeTier :: uint256

record contract =
  owner :: address
  fee :: uint256
  count :: uint256
  incrementCount :: "address \<Rightarrow> uint256"
  topAddresses :: "address list"
  topCounts :: "uint256 list"
  nextTokenId :: uint256
  userStats :: "address \<Rightarrow> UserStats"
  userTokenId :: "address \<Rightarrow> uint256"
  bronzeThreshold :: uint256
  silverThreshold :: uint256
  goldThreshold :: uint256
  platinumThreshold :: uint256
  diamondThreshold :: uint256
  masterThreshold :: uint256
  legendaryThreshold :: uint256
  tokenOwner :: "uint256 \<Rightarrow> address"
  events :: "event list"

text \<open>
  What a call carries: \<open>msg.sender\<close>, \<open>msg.value\<close>, \<open>block.timestamp\<close>, and the answers of
  the two calls that leave the contract: the ERC721 receiver check of \<open>_safeMint\<close> and the
  \<open>transfer\<close> of the fee to the owner. Both are code of other accounts; a rejection reverts
  the whole call. \<open>transfer\<close> forwards too little gas for the owner to call back. The receiver
  check runs with all the gas: what the receiver does to the contract in the meantime is the
  \<open>hook\<close> parameter of the functions below.
\<close>

record call_ctx =
  msg_sender :: address
  msg_value :: uint256
  block_timestamp :: uint256
  receiver_accepts :: bool
  payout_succeeds :: bool

definition COOLDOWN_SECONDS :: uint256 where
  "COOLDOWN_SECONDS = 3600"

definition MAX_TOP :: nat where
  "MAX_TOP = 20"

definition checked_add :: "uint256 \<Rightarrow> uint256 \<Rightarrow> error + uint256" where
  "checked_add a b = (if unat a + unat b < 2 ^ 256 then Inr (a + b) else Inl Panic)"

definition checked_sub :: "uint256 \<Rightarrow> uint256 \<Rightarrow> error + uint256" where
  "checked_sub a b = (if b \<le> a then Inr (a - b) else Inl Panic)"

definition thenR :: "error + 'a \<Rightarrow> ('a \<Rightarrow> error + 'b) \<Rightarrow> error + 'b" where
  "thenR m f = (case m of Inl e \<Rightarrow> Inl e | Inr x \<Rightarrow> f x)"

definition emit :: "event \<Rightarrow> contract \<Rightarrow> contract" where
  "emit e s = s\<lparr>events := events s @ [e]\<rparr>"

definition constructor :: "address \<Rightarrow> uint256 \<Rightarrow> contract" where
  "constructor deployer initialFee =
     \<lparr>owner = deployer, fee = initialFee, count = 0, incrementCount = (\<lambda>_. 0),
      topAddresses = [], topCounts = [], nextTokenId = 1,
      userStats = (\<lambda>_. \<lparr>increments = 0, decrements = 0, lastActionTime = 0, badgeTier = 0\<rparr>),
      userTokenId = (\<lambda>_. 0),
      bronzeThreshold = 10, silverThreshold = 25, goldThreshold = 50,
      platinumThreshold = 100, diamondThreshold = 250, masterThreshold = 500,
      legendaryThreshold = 1000,
      tokenOwner = (\<lambda>_. 0), events = []\<rparr>"

subsection \<open>Modifiers\<close>

definition onlyPaid :: "call_ctx \<Rightarrow> (contract \<Rightarrow> error + contract) \<Rightarrow> contract \<Rightarrow> error + contract" where
  "onlyPaid c body s = (if msg_value c = fee s then body s else Inl MustPayExactFee)"

text \<open>The guard of \<open>timeLocked\<close>: the sum is checked, then compared with the block time.\<close>

definition timeLocked_guard :: "call_ctx \<Rightarrow> contract \<Rightarrow> error + unit" where
  "timeLocked_guard c s =
     thenR (checked_add (lastActionTime (userStats s (msg_sender c))) COOLDOWN_SECONDS)
       (\<lambda>unlock. if unlock \<le> block_timestamp c then Inr () else Inl ActionLocked)"

definition setLastActionTime :: "address \<Rightarrow> uint256 \<Rightarrow> contract \<Rightarrow> contract" where
  "setLastActionTime u t s =
     s\<lparr>userStats := (userStats s)(u := (userStats s u)\<lparr>lastActionTime := t\<rparr>)\<rparr>"

definition timeLocked :: "call_ctx \<Rightarrow> (contract \<Rightarrow> error + contract) \<Rightarrow> contract \<Rightarrow> error + contract" where
  "timeLocked c body s =
     thenR (timeLocked_guard c s) (\<lambda>_.
     thenR (body s) (\<lambda>s'.
     Inr (setLastActionTime (msg_sender c) (block_timestamp c) s')))"

definition onlyOwner :: "call_ctx \<Rightarrow> (contract \<Rightarrow> error + contract) \<Rightarrow> contract \<Rightarrow> error + contract" where
  "onlyOwner c body s =
     (if msg_value c \<noteq> 0 then Inl NotPayable
      else if msg_sender c = owner s then body s else Inl OwnableUnauthorizedAccount)"

subsection \<open>Top-N leaderboard maintenance\<close>

text \<open>
  The bubble loop \<open>while (i > 0 && topCounts[i] > topCounts[i - 1]) { swap; swap; i--; }\<close>,
  by recursion on \<open>i\<close>.
\<close>

fun bubbleUp :: "nat \<Rightarrow> address list \<Rightarrow> uint256 list \<Rightarrow> error + (address list \<times> uint256 list)" where
  "bubbleUp 0 as cs = Inr (as, cs)"
| "bubbleUp (Suc k) as cs =
     (if Suc k < length cs then
        (if cs ! k < cs ! Suc k then
           (if Suc k < length as then
              bubbleUp k (as[k := as ! Suc k, Suc k := as ! k]) (cs[k := cs ! Suc k, Suc k := cs ! k])
            else Inl Panic)
         else Inr (as, cs))
      else Inl Panic)"

text \<open>
  The scan \<open>for (i = 0; i < topAddresses.length; i++)\<close>; \<open>Some r\<close> is the \<open>return\<close> inside
  the loop, \<open>None\<close> is the loop running to its end.
\<close>

function scanFor :: "address \<Rightarrow> uint256 \<Rightarrow> nat \<Rightarrow> address list \<Rightarrow> uint256 list
    \<Rightarrow> (error + (address list \<times> uint256 list)) option" where
  "scanFor user userCount i as cs =
     (if i < length as then
        (if as ! i = user then
           Some (if i < length cs then bubbleUp i as (cs[i := userCount]) else Inl Panic)
         else scanFor user userCount (Suc i) as cs)
      else None)"
  by pat_completeness auto
termination
  by (relation "measure (\<lambda>(user, userCount, i, as, cs). length as - i)") auto

definition updateTopLeaderboard :: "address \<Rightarrow> contract \<Rightarrow> error + contract" where
  "updateTopLeaderboard user s =
     (let userCount = incrementCount s user; as = topAddresses s; cs = topCounts s in
      thenR
        (case scanFor user userCount 0 as cs of
           Some r \<Rightarrow> r
         | None \<Rightarrow>
             if length as < MAX_TOP then
               bubbleUp (length (as @ [user]) - 1) (as @ [user]) (cs @ [userCount])
             else if cs = [] then Inl Panic
             else if userCount \<le> cs ! (length cs - 1) then Inr (as, cs)
             else if length as - 1 < length cs then
               bubbleUp (length as - 1) (as[length as - 1 := user]) (cs[length as - 1 := userCount])
             else Inl Panic)
        (\<lambda>(as', cs'). Inr (s\<lparr>topAddresses := as', topCounts := cs'\<rparr>)))"

subsection \<open>Badge logic\<close>

definition determineTier :: "contract \<Rightarrow> uint256 \<Rightarrow> uint256" where
  "determineTier s n =
     (if legendaryThreshold s \<le> n then 7
      else if masterThreshold s \<le> n then 6
      else if diamondThreshold s \<le> n then 5
      else if platinumThreshold s \<le> n then 4
      else if goldThreshold s \<le> n then 3
      else if silverThreshold s \<le> n then 2
      else if bronzeThreshold s \<le> n then 1
      else 0)"

text \<open>
  \<open>_safeMint\<close> is OpenZeppelin's ERC721 code, not part of this repository. It is represented
  by its documented effect: it reverts for the zero address and for a token that already has
  an owner, records the owner, emits \<open>Transfer(0, to, tokenId)\<close>, and then, when the receiver is
  a contract, calls its \<open>onERC721Received\<close> and reverts unless that accepts. The receiver's
  code runs in the middle of the call of this contract and may call it again: \<open>hook\<close> is the
  change of state by those calls (the identity for an account without code).
\<close>

definition safeMint ::
  "(contract \<Rightarrow> contract) \<Rightarrow> call_ctx \<Rightarrow> address \<Rightarrow> uint256 \<Rightarrow> contract \<Rightarrow> error + contract" where
  "safeMint hook c to tokenId s =
     (if to = 0 then Inl ERC721InvalidReceiver
      else if tokenOwner s tokenId \<noteq> 0 then Inl ERC721InvalidSender
      else if \<not> receiver_accepts c then Inl ERC721InvalidReceiver
      else Inr (hook (emit (Transfer 0 to tokenId) (s\<lparr>tokenOwner := (tokenOwner s)(tokenId := to)\<rparr>))))"

definition setBadgeTier :: "address \<Rightarrow> uint256 \<Rightarrow> contract \<Rightarrow> contract" where
  "setBadgeTier u t s =
     s\<lparr>userStats := (userStats s)(u := (userStats s u)\<lparr>badgeTier := t\<rparr>)\<rparr>"

definition assignOrUpdateBadge ::
  "(contract \<Rightarrow> contract) \<Rightarrow> call_ctx \<Rightarrow> address \<Rightarrow> contract \<Rightarrow> error + contract" where
  "assignOrUpdateBadge hook c user s =
     (let tier = determineTier s (increments (userStats s user)) in
      if badgeTier (userStats s user) < tier then
        (let s1 = setBadgeTier user tier s in
         thenR
           (if userTokenId s1 user = 0 then
              (let tokenId = nextTokenId s1 in
               thenR (checked_add (nextTokenId s1) 1) (\<lambda>n.
               thenR (safeMint hook c user tokenId (s1\<lparr>nextTokenId := n\<rparr>)) (\<lambda>s2.
               Inr (s2\<lparr>userTokenId := (userTokenId s2)(user := tokenId)\<rparr>))))
            else Inr s1)
           (\<lambda>s3. Inr (emit (BadgeAssigned user (userTokenId s3 user) tier) s3)))
      else Inr s)"

subsection \<open>Public counter functions\<close>

definition payOwner :: "call_ctx \<Rightarrow> contract \<Rightarrow> error + contract" where
  "payOwner c s = (if payout_succeeds c then Inr s else Inl TransferFailed)"

definition increment_body :: "(contract \<Rightarrow> contract) \<Rightarrow> call_ctx \<Rightarrow> contract \<Rightarrow> error + contract" where
  "increment_body hook c s =
     thenR (checked_add (count s) 1) (\<lambda>n.
     let s1 = s\<lparr>count := n\<rparr> in
     thenR (checked_add (incrementCount s1 (msg_sender c)) 1) (\<lambda>m.
     let s2 = s1\<lparr>incrementCount := (incrementCount s1)(msg_sender c := m)\<rparr> in
     thenR (updateTopLeaderboard (msg_sender c) s2) (\<lambda>s3.
     thenR (checked_add (increments (userStats s3 (msg_sender c))) 1) (\<lambda>k.
     let s4 = s3\<lparr>userStats := (userStats s3)(msg_sender c := (userStats s3 (msg_sender c))\<lparr>increments := k\<rparr>)\<rparr> in
     thenR (assignOrUpdateBadge hook c (msg_sender c) s4) (\<lambda>s5.
     thenR (payOwner c s5) (\<lambda>s6.
     Inr (emit (CounterChanged (msg_sender c) 1 (count s6)) s6)))))))"

definition increment :: "(contract \<Rightarrow> contract) \<Rightarrow> call_ctx \<Rightarrow> contract \<Rightarrow> error + contract" where
  "increment hook c = onlyPaid c (timeLocked c (increment_body hook c))"

definition decrement_body :: "(contract \<Rightarrow> contract) \<Rightarrow> call_ctx \<Rightarrow> contract \<Rightarrow> error + contract" where
  "decrement_body hook c s =
     (if \<not> 0 < count s then Inl CounterAlreadyZero
      else
     thenR (checked_sub (count s) 1) (\<lambda>n.
     let s1 = s\<lparr>count := n\<rparr> in
     thenR (checked_add (incrementCount s1 (msg_sender c)) 1) (\<lambda>m.
     let s2 = s1\<lparr>incrementCount := (incrementCount s1)(msg_sender c := m)\<rparr> in
     thenR (updateTopLeaderboard (msg_sender c) s2) (\<lambda>s3.
     thenR (checked_add (decrements (userStats s3 (msg_sender c))) 1) (\<lambda>k.
     let s4 = s3\<lparr>userStats := (userStats s3)(msg_sender c := (userStats s3 (msg_sender c))\<lparr>decrements := k\<rparr>)\<rparr> in
     thenR (assignOrUpdateBadge hook c (msg_sender c) s4) (\<lambda>s5.
     thenR (payOwner c s5) (\<lambda>s6.
     Inr (emit (CounterChanged (msg_sender c) (- 1) (count s6)) s6))))))))"

definition decrement :: "(contract \<Rightarrow> contract) \<Rightarrow> call_ctx \<Rightarrow> contract \<Rightarrow> error + contract" where
  "decrement hook c = onlyPaid c (timeLocked c (decrement_body hook c))"

subsection \<open>Owner functions\<close>

definition setFee :: "uint256 \<Rightarrow> call_ctx \<Rightarrow> contract \<Rightarrow> error + contract" where
  "setFee newFee c = onlyOwner c (\<lambda>s. Inr (emit (FeeUpdated newFee) (s\<lparr>fee := newFee\<rparr>)))"

definition resetCounter :: "uint256 \<Rightarrow> call_ctx \<Rightarrow> contract \<Rightarrow> error + contract" where
  "resetCounter newValue c = onlyOwner c (\<lambda>s. Inr (emit (CounterReset newValue) (s\<lparr>count := newValue\<rparr>)))"

definition setBadgeThresholds ::
  "uint256 \<Rightarrow> uint256 \<Rightarrow> uint256 \<Rightarrow> uint256 \<Rightarrow> uint256 \<Rightarrow> uint256 \<Rightarrow> uint256
     \<Rightarrow> call_ctx \<Rightarrow> contract \<Rightarrow> error + contract" where
  "setBadgeThresholds bronze silver gold platinum diamond master legendary c =
     onlyOwner c (\<lambda>s. Inr (emit BadgeThresholdsUpdated
       (s\<lparr>bronzeThreshold := bronze, silverThreshold := silver, goldThreshold := gold,
          platinumThreshold := platinum, diamondThreshold := diamond,
          masterThreshold := master, legendaryThreshold := legendary\<rparr>)))"

subsection \<open>Transactions\<close>

datatype call =
    Increment
  | Decrement
  | SetFee uint256
  | ResetCounter uint256
  | SetBadgeThresholds uint256 uint256 uint256 uint256 uint256 uint256 uint256

fun exec :: "(contract \<Rightarrow> contract) \<Rightarrow> call \<Rightarrow> call_ctx \<Rightarrow> contract \<Rightarrow> error + contract" where
  "exec hook Increment c s = increment hook c s"
| "exec hook Decrement c s = decrement hook c s"
| "exec hook (SetFee f) c s = setFee f c s"
| "exec hook (ResetCounter v) c s = resetCounter v c s"
| "exec hook (SetBadgeThresholds b sv g p d m l) c s = setBadgeThresholds b sv g p d m l c s"

text \<open>
  A transaction is one external call: the function called, what the call carries, and the
  calls that the receiver's \<open>onERC721Received\<close> makes to the contract if this call mints to it
  (none for an account without code). The ledger applies a call atomically: a call that
  reverts leaves the state as it was. That holds for the calls of the receiver as well; a
  receiver that lets a revert of its own call through rejects, which reverts everything.
  The calls of a receiver run in the block of the outer call and so carry its block time;
  the type allows any, and what is proved for all transactions holds for those.
\<close>

datatype tx = Tx call call_ctx "tx list"

fun transact :: "contract \<Rightarrow> tx \<Rightarrow> contract" where
  "transact s (Tx k c nested) =
     (case exec (\<lambda>s'. foldl transact s' nested) k c s of Inl e \<Rightarrow> s | Inr s' \<Rightarrow> s')"

fun run :: "contract \<Rightarrow> tx list \<Rightarrow> contract" where
  "run s [] = s"
| "run s (t # ts) = run (transact s t) ts"

subsection \<open>Calls whose outgoing calls succeed\<close>

text \<open>
  A call whose sender accepts a token (an account without code, or a contract whose
  \<open>onERC721Received\<close> answers with the selector) and whose fee the owner takes.
\<close>

definition call_from :: "address \<Rightarrow> uint256 \<Rightarrow> uint256 \<Rightarrow> call_ctx" where
  "call_from a v t =
     \<lparr>msg_sender = a, msg_value = v, block_timestamp = t,
      receiver_accepts = True, payout_succeeds = True\<rparr>"

section \<open>The leaderboard as a list of entries\<close>

text \<open>
  The two parallel arrays read as one list of (address, score) entries. \<open>place xs e\<close> is the
  insertion step of the specification: the entry \<open>e\<close>, put at the right end of \<open>xs\<close>, moves
  left while its score exceeds the score of its left neighbour. \<open>update_spec\<close> follows the
  four steps of the specification of \<open>update(address, newScore)\<close>.
\<close>

type_synonym entry = "address \<times> uint256"

definition entries :: "contract \<Rightarrow> entry list" where
  "entries s = zip (topAddresses s) (topCounts s)"

definition place :: "entry list \<Rightarrow> entry \<Rightarrow> entry list" where
  "place xs e =
     rev (dropWhile (\<lambda>x. snd x < snd e) (rev xs)) @ e # rev (takeWhile (\<lambda>x. snd x < snd e) (rev xs))"

definition update_spec :: "address \<Rightarrow> uint256 \<Rightarrow> entry list \<Rightarrow> entry list" where
  "update_spec a newScore es =
     (if a \<in> fst ` set es then
        place (takeWhile (\<lambda>x. fst x \<noteq> a) es) (a, newScore) @ tl (dropWhile (\<lambda>x. fst x \<noteq> a) es)
      else if length es < 20 then place es (a, newScore)
      else if newScore \<le> snd (last es) then es
      else place (butlast es) (a, newScore))"

abbreviation descending :: "uint256 list \<Rightarrow> bool" where
  "descending cs \<equiv> sorted_wrt (\<lambda>a b. b \<le> a) cs"

definition strictly_descending :: "uint256 list \<Rightarrow> bool" where
  "strictly_descending cs = sorted_wrt (\<lambda>a b. b < a) cs"

text \<open>The entries ranked behind the entry of an address.\<close>

definition behind :: "address \<Rightarrow> entry list \<Rightarrow> entry list" where
  "behind a es = tl (dropWhile (\<lambda>x. fst x \<noteq> a) es)"

text \<open>The entries ranked ahead of the entry of an address.\<close>

definition ahead :: "address \<Rightarrow> entry list \<Rightarrow> entry list" where
  "ahead a es = takeWhile (\<lambda>x. fst x \<noteq> a) es"

text \<open>
  The specification's \<open>update(address, newScore)\<close>: the leaderboard update for an address
  whose action count is \<open>newScore\<close>; \<open>updates\<close> runs a sequence of them.
\<close>

definition update :: "address \<Rightarrow> uint256 \<Rightarrow> contract \<Rightarrow> error + contract" where
  "update a newScore s = updateTopLeaderboard a (s\<lparr>incrementCount := (incrementCount s)(a := newScore)\<rparr>)"

fun updates :: "(address \<times> uint256) list \<Rightarrow> contract \<Rightarrow> error + contract" where
  "updates [] s = Inr s"
| "updates (x # xs) s = thenR (update (fst x) (snd x) s) (updates xs)"

section \<open>Badge tokens and tiers\<close>

text \<open>The tokens minted for an address are the \<open>Transfer\<close> events from the zero address to it.\<close>

definition is_mint_to :: "address \<Rightarrow> event \<Rightarrow> bool" where
  "is_mint_to a e = (case e of Transfer from to tokenId \<Rightarrow> from = 0 \<and> to = a | _ \<Rightarrow> False)"

definition mints :: "address \<Rightarrow> contract \<Rightarrow> nat" where
  "mints a s = length (filter (is_mint_to a) (events s))"

text \<open>The threshold table, lowest tier first.\<close>

definition thresholds :: "contract \<Rightarrow> uint256 list" where
  "thresholds s =
     [bronzeThreshold s, silverThreshold s, goldThreshold s, platinumThreshold s,
      diamondThreshold s, masterThreshold s, legendaryThreshold s]"

text \<open>
  The tier table of the specification: thresholds 10, 25, 50, 100, 250, 500, 1000 for the
  tiers 1 to 7. \<open>recompute_spec\<close> is the tier of the highest threshold that the count has
  reached, and 0 below all of them.
\<close>

definition tier_table :: "(uint256 \<times> uint256) list" where
  "tier_table = [(10, 1), (25, 2), (50, 3), (100, 4), (250, 5), (500, 6), (1000, 7)]"

definition recompute_spec :: "uint256 \<Rightarrow> uint256" where
  "recompute_spec n =
     (case filter (\<lambda>row. fst row \<le> n) tier_table of [] \<Rightarrow> 0 | rows \<Rightarrow> snd (last rows))"

section \<open>Invariants of the reachable states\<close>

text \<open>\<open>increment\<close> and \<open>decrement\<close> are the calls that count as actions of the caller.\<close>

definition is_action :: "call \<Rightarrow> bool" where
  "is_action k = (case k of Increment \<Rightarrow> True | Decrement \<Rightarrow> True | _ \<Rightarrow> False)"

text \<open>
  The leaderboard: the two arrays have one length, at most \<open>MAX_TOP\<close>; no address occurs
  twice; the scores do not increase along the list; and the score stored with an address is
  its action count.
\<close>

definition board_inv :: "contract \<Rightarrow> bool" where
  "board_inv s \<longleftrightarrow>
     length (topAddresses s) = length (topCounts s) \<and>
     length (topAddresses s) \<le> MAX_TOP \<and>
     distinct (topAddresses s) \<and>
     descending (topCounts s) \<and>
     (\<forall>x \<in> set (entries s). snd x = incrementCount s (fst x))"

text \<open>The action count of an address is the sum of its two statistics.\<close>

definition stats_inv :: "contract \<Rightarrow> bool" where
  "stats_inv s \<longleftrightarrow>
     (\<forall>u. unat (incrementCount s u)
           = unat (increments (userStats s u)) + unat (decrements (userStats s u)))"

text \<open>
  Badges: token ids start at 1, an address has a token id exactly when its tier is positive,
  and exactly one token was minted for it then.
\<close>

definition badge_inv :: "contract \<Rightarrow> bool" where
  "badge_inv s \<longleftrightarrow>
     nextTokenId s \<noteq> 0 \<and>
     (\<forall>a. (userTokenId s a = 0 \<longleftrightarrow> badgeTier (userStats s a) = 0) \<and>
          mints a s = (if badgeTier (userStats s a) = 0 then 0 else 1))"

text \<open>The two invariants that hold whatever a token receiver calls.\<close>

definition state_inv :: "contract \<Rightarrow> bool" where
  "state_inv s \<longleftrightarrow> board_inv s \<and> stats_inv s"

text \<open>The tier of an address has reached a value; the arrays have one length.\<close>

definition tier_at_least :: "address \<Rightarrow> uint256 \<Rightarrow> contract \<Rightarrow> bool" where
  "tier_at_least a T s \<longleftrightarrow>
     length (topAddresses s) = length (topCounts s) \<and> T \<le> badgeTier (userStats s a)"

text \<open>A transaction during which the token receiver calls nothing.\<close>

fun plain :: "tx \<Rightarrow> bool" where
  "plain (Tx k c nested) \<longleftrightarrow> nested = []"

section \<open>Closed form of a call of \<open>increment\<close> or \<open>decrement\<close>\<close>

text \<open>
  The parts of a successful call, in the order of the code (\<open>up\<close> tells \<open>increment\<close> from
  \<open>decrement\<close>): \<open>stepped\<close> is the state after the counter, the action count, the leaderboard
  and the statistics of the caller are updated; \<open>new_tier\<close> is the tier computed then;
  \<open>at_callback\<close> is the state in which \<open>_safeMint\<close> calls the receiver; \<open>closing\<close> is the event
  of the call and the write of \<open>lastActionTime\<close> by the modifier. \<open>can_act\<close> collects what makes
  no statement of the call revert, and \<open>outcome\<close> is the state that the call then leaves.
\<close>

definition stepped :: "bool \<Rightarrow> call_ctx \<Rightarrow> contract \<Rightarrow> contract" where
  "stepped up c s =
     (let u = msg_sender c;
          n = incrementCount s u + 1;
          es = update_spec u n (entries s);
          st = userStats s u
      in s\<lparr>count := (if up then count s + 1 else count s - 1),
           incrementCount := (incrementCount s)(u := n),
           topAddresses := map fst es,
           topCounts := map snd es,
           userStats := (userStats s)(u :=
              (if up then st\<lparr>increments := increments st + 1\<rparr>
               else st\<lparr>decrements := decrements st + 1\<rparr>))\<rparr>)"

definition new_tier :: "bool \<Rightarrow> call_ctx \<Rightarrow> contract \<Rightarrow> uint256" where
  "new_tier up c s =
     determineTier s (if up then increments (userStats s (msg_sender c)) + 1
                      else increments (userStats s (msg_sender c)))"

definition tier_rises :: "bool \<Rightarrow> call_ctx \<Rightarrow> contract \<Rightarrow> bool" where
  "tier_rises up c s \<longleftrightarrow> badgeTier (userStats s (msg_sender c)) < new_tier up c s"

definition at_callback :: "bool \<Rightarrow> call_ctx \<Rightarrow> contract \<Rightarrow> contract" where
  "at_callback up c s =
     emit (Transfer 0 (msg_sender c) (nextTokenId s))
       ((setBadgeTier (msg_sender c) (new_tier up c s) (stepped up c s))
          \<lparr>nextTokenId := nextTokenId s + 1,
           tokenOwner := (tokenOwner s)(nextTokenId s := msg_sender c)\<rparr>)"

definition closing :: "bool \<Rightarrow> call_ctx \<Rightarrow> contract \<Rightarrow> contract" where
  "closing up c x =
     setLastActionTime (msg_sender c) (block_timestamp c)
       (emit (CounterChanged (msg_sender c) (if up then 1 else - 1) (count x)) x)"

definition outcome :: "(contract \<Rightarrow> contract) \<Rightarrow> bool \<Rightarrow> call_ctx \<Rightarrow> contract \<Rightarrow> contract" where
  "outcome hook up c s =
     closing up c
       (if tier_rises up c s then
          (if userTokenId s (msg_sender c) = 0 then
             (let x = hook (at_callback up c s)
              in emit (BadgeAssigned (msg_sender c) (nextTokenId s) (new_tier up c s))
                   (x\<lparr>userTokenId := (userTokenId x)(msg_sender c := nextTokenId s)\<rparr>))
           else emit (BadgeAssigned (msg_sender c) (userTokenId s (msg_sender c)) (new_tier up c s))
                  (setBadgeTier (msg_sender c) (new_tier up c s) (stepped up c s)))
        else stepped up c s)"

definition mint_possible :: "call_ctx \<Rightarrow> contract \<Rightarrow> bool" where
  "mint_possible c s \<longleftrightarrow>
     msg_sender c \<noteq> 0 \<and> tokenOwner s (nextTokenId s) = 0 \<and> receiver_accepts c \<and>
     unat (nextTokenId s) + 1 < 2 ^ 256"

definition can_act :: "bool \<Rightarrow> call_ctx \<Rightarrow> contract \<Rightarrow> bool" where
  "can_act up c s \<longleftrightarrow>
     msg_value c = fee s \<and> timeLocked_guard c s = Inr () \<and>
     (if up then unat (count s) + 1 < 2 ^ 256 else 0 < count s) \<and>
     unat (incrementCount s (msg_sender c)) + 1 < 2 ^ 256 \<and>
     (if up then unat (increments (userStats s (msg_sender c))) + 1 < 2 ^ 256
      else unat (decrements (userStats s (msg_sender c))) + 1 < 2 ^ 256) \<and>
     (if tier_rises up c s \<and> userTokenId s (msg_sender c) = 0 then mint_possible c s else True) \<and>
     payout_succeeds c"

text \<open>What a successful call of the owner does to the state.\<close>

definition owner_effect :: "call \<Rightarrow> contract \<Rightarrow> contract" where
  "owner_effect k s =
     (case k of
        SetFee f \<Rightarrow> emit (FeeUpdated f) (s\<lparr>fee := f\<rparr>)
      | ResetCounter v \<Rightarrow> emit (CounterReset v) (s\<lparr>count := v\<rparr>)
      | SetBadgeThresholds b sv g p d m l \<Rightarrow>
          emit BadgeThresholdsUpdated
            (s\<lparr>bronzeThreshold := b, silverThreshold := sv, goldThreshold := g,
               platinumThreshold := p, diamondThreshold := d,
               masterThreshold := m, legendaryThreshold := l\<rparr>)
      | _ \<Rightarrow> s)"

section \<open>Scenarios\<close>

text \<open>Ten increments by address 1, an hour apart.\<close>

definition ten_increments :: "tx list" where
  "ten_increments =
     map (\<lambda>t. Tx Increment (call_from 1 0 t) [])
       [3600, 7200, 10800, 14400, 18000, 21600, 25200, 28800, 32400, 36000]"

text \<open>Twenty-one addresses with the scores 1 to 21, in call order.\<close>

definition ascending_21 :: "(address \<times> uint256) list" where
  "ascending_21 =
     [(1, 1), (2, 2), (3, 3), (4, 4), (5, 5), (6, 6), (7, 7), (8, 8), (9, 9), (10, 10),
      (11, 11), (12, 12), (13, 13), (14, 14), (15, 15), (16, 16), (17, 17), (18, 18),
      (19, 19), (20, 20), (21, 21)]"

text \<open>A full leaderboard: address \<open>k\<close> has \<open>k\<close> actions, for \<open>k\<close> from 1 to 20.\<close>

definition full_board :: contract where
  "full_board =
     (constructor 9 0)
       \<lparr>incrementCount := (\<lambda>a. ucast a),
        topAddresses := [20, 19, 18, 17, 16, 15, 14, 13, 12, 11, 10, 9, 8, 7, 6, 5, 4, 3, 2, 1],
        topCounts := [20, 19, 18, 17, 16, 15, 14, 13, 12, 11, 10, 9, 8, 7, 6, 5, 4, 3, 2, 1]\<rparr>"

text \<open>
  The owner sets the thresholds to 1, 2, ..., 7. Then the contract account 5 calls
  \<open>increment\<close>; the call mints to it, and its \<open>onERC721Received\<close> calls \<open>increment\<close> once more.
\<close>

definition reentrant_mint :: "tx list" where
  "reentrant_mint =
     [Tx (SetBadgeThresholds 1 2 3 4 5 6 7) (call_from 9 0 0) [],
      Tx Increment (call_from 5 0 3600) [Tx Increment (call_from 5 0 3600) []]]"

section \<open>The client: scheduled refresh (main.js and its second copy)\<close>

text \<open>
  The client runs on one thread: a callback runs to its first \<open>await\<close> without interruption
  and continues when the awaited reads have settled. The interval callback of
  \<open>startAutoRefresh\<close> is therefore two steps: the start of a cycle when the timer fires, and
  its end when the reads settle. \<open>in_flight\<close> counts the cycles that have started and not
  ended; it is not a variable of the program.

  The repository has two copies of the client. In main.js the callback tests \<open>userAddress\<close>
  only and has no \<open>isRefreshing\<close> variable (the field is left alone). In the second copy
  ("Auto-refresh functions with race condition protection") it tests
  \<open>userAddress && !isRefreshing\<close>, sets the flag, and clears it in \<open>finally\<close>.
\<close>

record client =
  userAddress :: "string option"
  autoRefreshInterval :: "nat option"
  isRefreshing :: bool
  in_flight :: nat

definition client_init :: client where
  "client_init = \<lparr>userAddress = None, autoRefreshInterval = None, isRefreshing = False, in_flight = 0\<rparr>"

definition startAutoRefresh :: "client \<Rightarrow> client" where
  "startAutoRefresh s =
     (if autoRefreshInterval s \<noteq> None then s else s\<lparr>autoRefreshInterval := Some 1\<rparr>)"

definition stopAutoRefresh :: "client \<Rightarrow> client" where
  "stopAutoRefresh s =
     (if autoRefreshInterval s \<noteq> None then s\<lparr>autoRefreshInterval := None\<rparr> else s)"

definition refresh_begin_main :: "client \<Rightarrow> client" where
  "refresh_begin_main s =
     (if userAddress s \<noteq> None then s\<lparr>in_flight := in_flight s + 1\<rparr> else s)"

definition refresh_end_main :: "client \<Rightarrow> client" where
  "refresh_end_main s = s\<lparr>in_flight := in_flight s - 1\<rparr>"

definition refresh_begin_guarded :: "client \<Rightarrow> client" where
  "refresh_begin_guarded s =
     (if userAddress s \<noteq> None \<and> \<not> isRefreshing s
      then s\<lparr>isRefreshing := True, in_flight := in_flight s + 1\<rparr> else s)"

definition refresh_end_guarded :: "client \<Rightarrow> client" where
  "refresh_end_guarded s = s\<lparr>isRefreshing := False, in_flight := in_flight s - 1\<rparr>"

text \<open>
  What can happen to the client: the interval timer fires (only while an interval is set),
  the reads of a cycle in flight settle, the wallet connects or disconnects, and the refresh
  is started or stopped.
\<close>

datatype client_event =
    TimerFires
  | CycleSettles
  | SetUserAddress "string option"
  | StartAutoRefresh
  | StopAutoRefresh

fun client_step ::
  "(client \<Rightarrow> client) \<Rightarrow> (client \<Rightarrow> client) \<Rightarrow> client \<Rightarrow> client_event \<Rightarrow> client" where
  "client_step begin_cycle end_cycle s TimerFires =
     (if autoRefreshInterval s \<noteq> None then begin_cycle s else s)"
| "client_step begin_cycle end_cycle s CycleSettles =
     (if 0 < in_flight s then end_cycle s else s)"
| "client_step begin_cycle end_cycle s (SetUserAddress a) = s\<lparr>userAddress := a\<rparr>"
| "client_step begin_cycle end_cycle s StartAutoRefresh = startAutoRefresh s"
| "client_step begin_cycle end_cycle s StopAutoRefresh = stopAutoRefresh s"

definition run_main :: "client_event list \<Rightarrow> client" where
  "run_main evs = foldl (client_step refresh_begin_main refresh_end_main) client_init evs"

definition run_guarded :: "client_event list \<Rightarrow> client" where
  "run_guarded evs = foldl (client_step refresh_begin_guarded refresh_end_guarded) client_init evs"

section \<open>The bubble loop and the scan, on entries\<close>

lemma place_Nil: "place [] e = [e]"
  by (simp add: place_def)

lemma place_snoc:
  "place (xs @ [x]) e = (if snd x < snd e then place xs e @ [x] else xs @ [x, e])"
  by (simp add: place_def)

lemma bubbleUp_entries:
  "bubbleUp (length xs) (map fst (xs @ e # ys)) (map snd (xs @ e # ys))
     = Inr (map fst (place xs e @ ys), map snd (place xs e @ ys))"
proof (induction xs arbitrary: ys rule: rev_induct)
  case Nil
  then show ?case by (simp add: place_Nil)
next
  case (snoc x xs)
  let ?k = "length xs"
  let ?as = "map fst ((xs @ [x]) @ e # ys)"
  let ?cs = "map snd ((xs @ [x]) @ e # ys)"
  have len: "Suc ?k < length ?cs" "Suc ?k < length ?as" by simp_all
  have ck: "?cs ! ?k = snd x" "?cs ! Suc ?k = snd e"
    by (simp_all add: nth_append)
  have ak: "?as ! ?k = fst x" "?as ! Suc ?k = fst e"
    by (simp_all add: nth_append)
  show ?case
  proof (cases "snd x < snd e")
    case True
    have sw_a: "?as[?k := ?as ! Suc ?k, Suc ?k := ?as ! ?k] = map fst (xs @ e # (x # ys))"
      unfolding ak by (simp add: list_update_append)
    have sw_c: "?cs[?k := ?cs ! Suc ?k, Suc ?k := ?cs ! ?k] = map snd (xs @ e # (x # ys))"
      unfolding ck by (simp add: list_update_append)
    have "bubbleUp (length (xs @ [x])) ?as ?cs
            = bubbleUp ?k (?as[?k := ?as ! Suc ?k, Suc ?k := ?as ! ?k]) (?cs[?k := ?cs ! Suc ?k, Suc ?k := ?cs ! ?k])"
      using len ck True by (simp del: map_append)
    also have "\<dots> = bubbleUp ?k (map fst (xs @ e # (x # ys))) (map snd (xs @ e # (x # ys)))"
      by (simp only: sw_a sw_c)
    also have "\<dots> = Inr (map fst (place xs e @ x # ys), map snd (place xs e @ x # ys))"
      by (rule snoc.IH)
    finally show ?thesis using True by (simp add: place_snoc)
  next
    case False
    have "bubbleUp (length (xs @ [x])) ?as ?cs = Inr (?as, ?cs)"
      using len ck False by (simp del: map_append)
    then show ?thesis using False by (simp add: place_snoc)
  qed
qed

declare scanFor.simps [simp del]

lemma scanFor_absent:
  "user \<notin> set (drop i as) \<Longrightarrow> scanFor user c i as cs = None"
proof (induction user c i as cs rule: scanFor.induct)
  case (1 user userCount i as cs)
  show ?case
  proof (cases "i < length as")
    case True
    then have d: "drop i as = as ! i # drop (Suc i) as"
      by (simp add: Cons_nth_drop_Suc)
    with "1.prems" have ne: "as ! i \<noteq> user" and rest: "user \<notin> set (drop (Suc i) as)"
      by auto
    from "1.IH"[OF True ne rest] True ne show ?thesis
      by (subst scanFor.simps) simp
  next
    case False
    then show ?thesis by (subst scanFor.simps) simp
  qed
qed

lemma scanFor_present:
  assumes "user \<notin> fst ` set xs" and "i \<le> length xs"
  shows "scanFor user c i (map fst (xs @ (user, old) # ys)) (map snd (xs @ (user, old) # ys))
           = Some (Inr (map fst (place xs (user, c) @ ys), map snd (place xs (user, c) @ ys)))"
  using assms(2)
proof (induction "length xs - i" arbitrary: i)
  case 0
  then have i: "i = length xs" by simp
  have upd: "(map snd (xs @ (user, old) # ys))[length xs := c] = map snd (xs @ (user, c) # ys)"
    by (simp add: list_update_append)
  have fs: "map fst (xs @ (user, old) # ys) = map fst (xs @ (user, c) # ys)"
    by simp
  have "scanFor user c i (map fst (xs @ (user, old) # ys)) (map snd (xs @ (user, old) # ys))
          = Some (bubbleUp (length xs) (map fst (xs @ (user, old) # ys)) ((map snd (xs @ (user, old) # ys))[length xs := c]))"
    unfolding i by (subst scanFor.simps) (simp add: nth_append)
  also have "\<dots> = Some (bubbleUp (length xs) (map fst (xs @ (user, c) # ys)) (map snd (xs @ (user, c) # ys)))"
    by (simp only: upd fs)
  finally show ?case by (simp only: bubbleUp_entries)
next
  case (Suc n)
  then have lt: "i < length xs" by simp
  then have "fst (xs ! i) \<in> fst ` set xs" by simp
  with assms(1) have ne: "fst (xs ! i) \<noteq> user" by metis
  have "scanFor user c i (map fst (xs @ (user, old) # ys)) (map snd (xs @ (user, old) # ys))
          = scanFor user c (Suc i) (map fst (xs @ (user, old) # ys)) (map snd (xs @ (user, old) # ys))"
    using lt ne by (subst scanFor.simps) (simp add: nth_append)
  also have "\<dots> = Some (Inr (map fst (place xs (user, c) @ ys), map snd (place xs (user, c) @ ys)))"
    using Suc.hyps(2) lt by (intro Suc.hyps(1)) simp_all
  finally show ?case .
qed

section \<open>The update of the leaderboard refines the specification\<close>

lemma thenR_Inr [simp]: "thenR (Inr x) f = f x"
  by (simp add: thenR_def)

lemma thenR_Inl [simp]: "thenR (Inl e) f = Inl e"
  by (simp add: thenR_def)

lemma thenR_eq_Inr: "thenR m f = Inr y \<longleftrightarrow> (\<exists>x. m = Inr x \<and> f x = Inr y)"
  by (cases m) simp_all

lemma split_first_entry:
  assumes "a \<in> fst ` set es"
  obtains xs old ys where "es = xs @ (a, old) # ys" "a \<notin> fst ` set xs"
    "takeWhile (\<lambda>x. fst x \<noteq> a) es = xs" "dropWhile (\<lambda>x. fst x \<noteq> a) es = (a, old) # ys"
proof -
  from assms have "\<exists>x \<in> set es. fst x = a" by auto
  then obtain xs x ys where es: "es = xs @ x # ys" and x: "fst x = a" and xs: "\<forall>y \<in> set xs. fst y \<noteq> a"
    by (auto simp: split_list_first_prop_iff)
  obtain old where xo: "x = (a, old)" using x by (cases x) simp
  have "a \<notin> fst ` set xs" using xs by auto
  moreover have "takeWhile (\<lambda>x. fst x \<noteq> a) es = xs"
    unfolding es using xs x by (simp add: takeWhile_append2)
  moreover have "dropWhile (\<lambda>x. fst x \<noteq> a) es = (a, old) # ys"
    unfolding es using xs x xo by (simp add: dropWhile_append2)
  ultimately show thesis using that es xo by blast
qed

lemma update_last: "xs \<noteq> [] \<Longrightarrow> xs[length xs - 1 := v] = butlast xs @ [v]"
  by (induction xs rule: rev_induct) (simp_all add: list_update_append)

lemma board_update_entries:
  fixes es :: "entry list"
  defines "as \<equiv> map fst es" and "cs \<equiv> map snd es"
  shows "(case scanFor user c 0 as cs of
            Some r \<Rightarrow> r
          | None \<Rightarrow>
              if length as < MAX_TOP then
                bubbleUp (length (as @ [user]) - 1) (as @ [user]) (cs @ [c])
              else if cs = [] then Inl Panic
              else if c \<le> cs ! (length cs - 1) then Inr (as, cs)
              else if length as - 1 < length cs then
                bubbleUp (length as - 1) (as[length as - 1 := user]) (cs[length as - 1 := c])
              else Inl Panic)
           = Inr (map fst (update_spec user c es), map snd (update_spec user c es))"
proof (cases "user \<in> fst ` set es")
  case True
  then obtain xs old ys where es: "es = xs @ (user, old) # ys" and nx: "user \<notin> fst ` set xs"
    and tw: "takeWhile (\<lambda>x. fst x \<noteq> user) es = xs"
    and dw: "dropWhile (\<lambda>x. fst x \<noteq> user) es = (user, old) # ys"
    by (rule split_first_entry)
  have "scanFor user c 0 as cs
          = Some (Inr (map fst (place xs (user, c) @ ys), map snd (place xs (user, c) @ ys)))"
    unfolding as_def cs_def es by (rule scanFor_present[OF nx]) simp
  moreover have "update_spec user c es = place xs (user, c) @ ys"
    using True by (simp add: update_spec_def tw dw)
  ultimately show ?thesis by simp
next
  case False
  then have "user \<notin> set (drop 0 as)" by (simp add: as_def)
  then have scan: "scanFor user c 0 as cs = None" by (rule scanFor_absent)
  show ?thesis
  proof (cases "length es < 20")
    case True
    have "bubbleUp (length (as @ [user]) - 1) (as @ [user]) (cs @ [c])
            = bubbleUp (length es) (map fst (es @ (user, c) # [])) (map snd (es @ (user, c) # []))"
      by (simp add: as_def cs_def)
    also have "\<dots> = Inr (map fst (place es (user, c) @ []), map snd (place es (user, c) @ []))"
      by (rule bubbleUp_entries)
    finally show ?thesis using scan True False
      by (simp add: update_spec_def MAX_TOP_def as_def)
  next
    case full: False
    then have ne: "es \<noteq> []" by auto
    then have es: "es = butlast es @ [last es]" by simp
    have lastc: "cs ! (length cs - 1) = snd (last es)"
      using ne by (simp add: cs_def last_conv_nth)
    show ?thesis
    proof (cases "c \<le> snd (last es)")
      case True
      then show ?thesis using scan full False ne lastc
        by (simp add: update_spec_def MAX_TOP_def as_def cs_def)
    next
      case gt: False
      have ua: "as[length as - 1 := user] = map fst (butlast es @ (user, c) # [])"
        using ne update_last[of as user] by (simp add: as_def map_butlast)
      have uc: "cs[length as - 1 := c] = map snd (butlast es @ (user, c) # [])"
        using ne update_last[of cs c] by (simp add: as_def cs_def map_butlast)
      have la: "length as - 1 = length (butlast es)" by (simp add: as_def)
      have "bubbleUp (length as - 1) (as[length as - 1 := user]) (cs[length as - 1 := c])
              = Inr (map fst (place (butlast es) (user, c) @ []), map snd (place (butlast es) (user, c) @ []))"
        unfolding ua uc unfolding la by (rule bubbleUp_entries)
      then show ?thesis using scan full False ne lastc gt
        by (simp add: update_spec_def MAX_TOP_def as_def cs_def)
    qed
  qed
qed

lemma updateTopLeaderboard_entries:
  assumes "length (topAddresses s) = length (topCounts s)"
  shows "updateTopLeaderboard user s =
           Inr (s\<lparr>topAddresses := map fst (update_spec user (incrementCount s user) (entries s)),
                  topCounts := map snd (update_spec user (incrementCount s user) (entries s))\<rparr>)"
proof -
  have a: "topAddresses s = map fst (entries s)" and c: "topCounts s = map snd (entries s)"
    using assms by (simp_all add: entries_def)
  have "updateTopLeaderboard user s =
          thenR (Inr (map fst (update_spec user (incrementCount s user) (entries s)),
                      map snd (update_spec user (incrementCount s user) (entries s))))
            (\<lambda>(as', cs'). Inr (s\<lparr>topAddresses := as', topCounts := cs'\<rparr>))"
    unfolding updateTopLeaderboard_def Let_def
    by (subst board_update_entries[symmetric]) (simp only: a[symmetric] c[symmetric])
  then show ?thesis by simp
qed

section \<open>Properties of the insertion step\<close>

lemma place_split:
  obtains xs1 xs2 where "xs = xs1 @ xs2" "place xs e = xs1 @ e # xs2"
    "\<forall>x \<in> set xs2. snd x < snd e"
proof
  let ?p = "\<lambda>x. snd x < snd e"
  let ?xs1 = "rev (dropWhile ?p (rev xs))" and ?xs2 = "rev (takeWhile ?p (rev xs))"
  show "xs = ?xs1 @ ?xs2"
    by (metis rev_append rev_rev_ident takeWhile_dropWhile_id)
  show "place xs e = ?xs1 @ e # ?xs2" by (simp add: place_def)
  show "\<forall>x \<in> set ?xs2. snd x < snd e" by (auto dest: set_takeWhileD)
qed

lemma length_place: "length (place xs e) = Suc (length xs)"
  by (rule place_split[of xs e]) simp

lemma set_place: "set (place xs e) = insert e (set xs)"
  by (rule place_split[of xs e]) auto

lemma filter_place: "\<not> P e \<Longrightarrow> filter P (place xs e) = filter P xs"
  by (rule place_split[of xs e]) simp

lemma distinct_place:
  "distinct (map fst xs) \<Longrightarrow> fst e \<notin> fst ` set xs \<Longrightarrow> distinct (map fst (place xs e))"
  by (rule place_split[of xs e]) auto

lemma descending_place:
  "descending (map snd xs) \<Longrightarrow> descending (map snd (place xs e))"
proof (induction xs rule: rev_induct)
  case Nil
  then show ?case by (simp add: place_Nil)
next
  case (snoc x xs)
  from snoc.prems have d: "descending (map snd xs)" and ge: "\<forall>y \<in> set xs. snd x \<le> snd y"
    by (auto simp: sorted_wrt_append)
  show ?case
  proof (cases "snd x < snd e")
    case True
    have "descending (map snd (place xs e))" using d by (rule snoc.IH)
    moreover have "\<forall>y \<in> set (place xs e). snd x \<le> snd y"
      using ge True by (auto simp: set_place)
    ultimately show ?thesis using True by (simp add: place_snoc sorted_wrt_append)
  next
    case False
    then have "snd e \<le> snd x" by simp
    moreover have "\<forall>y \<in> set xs. snd e \<le> snd y"
      using ge \<open>snd e \<le> snd x\<close> by (auto intro: order_trans)
    ultimately show ?thesis using snoc.prems False by (simp add: place_snoc sorted_wrt_append)
  qed
qed

lemma behind_place:
  assumes "fst e \<notin> fst ` set xs"
  shows "\<forall>y \<in> set (behind (fst e) (place xs e)). snd y < snd e"
proof (rule place_split[of xs e])
  fix xs1 xs2
  assume xs: "xs = xs1 @ xs2" and p: "place xs e = xs1 @ e # xs2"
    and low: "\<forall>x \<in> set xs2. snd x < snd e"
  have "\<forall>x \<in> set xs1. fst x \<noteq> fst e"
  proof
    fix x assume "x \<in> set xs1"
    then have "fst x \<in> fst ` set xs" by (simp add: xs)
    with assms show "fst x \<noteq> fst e" by metis
  qed
  then have "dropWhile (\<lambda>x. fst x \<noteq> fst e) (xs1 @ e # xs2) = e # xs2"
    by (simp add: dropWhile_append2)
  then show ?thesis using low by (simp add: behind_def p)
qed

section \<open>Properties of the specified update\<close>

lemma update_spec_cases:
  obtains (found) xs old ys where "es = xs @ (u, old) # ys" "u \<notin> fst ` set xs"
      "update_spec u c es = place xs (u, c) @ ys"
  | (append) "u \<notin> fst ` set es" "length es < 20" "update_spec u c es = place es (u, c)"
  | (reject) "u \<notin> fst ` set es" "update_spec u c es = es"
  | (replace) "u \<notin> fst ` set es" "es \<noteq> []" "\<not> length es < 20" "snd (last es) < c"
      "update_spec u c es = place (butlast es) (u, c)"
proof (cases "u \<in> fst ` set es")
  case True
  then obtain xs old ys where es: "es = xs @ (u, old) # ys" and nx: "u \<notin> fst ` set xs"
    and tw: "takeWhile (\<lambda>x. fst x \<noteq> u) es = xs"
    and dw: "dropWhile (\<lambda>x. fst x \<noteq> u) es = (u, old) # ys"
    by (rule split_first_entry)
  have "update_spec u c es = place xs (u, c) @ ys"
    using True by (simp add: update_spec_def tw dw)
  with es nx show thesis by (rule found)
next
  case False
  show thesis
  proof (cases "length es < 20")
    case True
    with False show thesis by (intro append) (simp_all add: update_spec_def)
  next
    case full: False
    then have ne: "es \<noteq> []" by auto
    show thesis
    proof (cases "c \<le> snd (last es)")
      case True
      with False full show thesis by (intro reject) (simp_all add: update_spec_def)
    next
      case gt: False
      with False full ne show thesis by (intro replace) (simp_all add: update_spec_def)
    qed
  qed
qed

lemma length_update_spec:
  "length es \<le> 20 \<Longrightarrow> length (update_spec u c es) \<le> 20"
  by (cases es u c rule: update_spec_cases) (simp_all add: length_place)

lemma distinct_update_spec:
  assumes "distinct (map fst es)"
  shows "distinct (map fst (update_spec u c es))"
proof (cases es u c rule: update_spec_cases)
  case (found xs old ys)
  from assms have dx: "distinct (map fst xs)" and dy: "distinct (map fst ys)"
    and uy: "u \<notin> fst ` set ys" and xy: "fst ` set xs \<inter> fst ` set ys = {}"
    unfolding found(1) by auto
  have "distinct (map fst (place xs (u, c)))"
    using dx found(2) by (intro distinct_place) simp_all
  then show ?thesis
    unfolding found(3) using dy uy xy by (auto simp: set_place)
next
  case append
  then show ?thesis using assms by (simp add: distinct_place)
next
  case reject
  then show ?thesis using assms by simp
next
  case replace
  from assms have "distinct (butlast (map fst es))" by (rule distinct_butlast)
  then have "distinct (map fst (butlast es))" by (simp add: map_butlast)
  moreover have "u \<notin> fst ` set (butlast es)"
    using replace(1) by (auto dest: in_set_butlastD)
  ultimately show ?thesis unfolding replace(5) by (intro distinct_place) simp_all
qed

lemma descending_update_spec:
  assumes "descending (map snd es)" and "\<forall>old. (u, old) \<in> set es \<longrightarrow> old \<le> c"
  shows "descending (map snd (update_spec u c es))"
proof (cases es u c rule: update_spec_cases)
  case (found xs old ys)
  from assms(1) have "descending (map snd xs @ old # map snd ys)"
    unfolding found(1) by simp
  then have sx: "descending (map snd xs)" and sy: "descending (map snd ys)"
    and oy: "\<forall>b \<in> set (map snd ys). b \<le> old"
    and xy: "\<forall>a \<in> set (map snd xs). \<forall>b \<in> set (map snd ys). b \<le> a"
    unfolding sorted_wrt_append by simp_all
  from assms(2) have "old \<le> c" unfolding found(1) by simp
  with oy have cy: "\<forall>b \<in> set (map snd ys). b \<le> c" by (metis order_trans)
  have "set (map snd (place xs (u, c))) = insert c (set (map snd xs))"
    by (simp add: set_place)
  with cy xy have cross: "\<forall>a \<in> set (map snd (place xs (u, c))). \<forall>b \<in> set (map snd ys). b \<le> a"
    by simp
  have "descending (map snd (place xs (u, c)))" using sx by (rule descending_place)
  with sy cross have "descending (map snd (place xs (u, c)) @ map snd ys)"
    unfolding sorted_wrt_append by blast
  then show ?thesis unfolding found(3) by simp
next
  case append
  then show ?thesis using assms(1) by (simp add: descending_place)
next
  case reject
  then show ?thesis using assms(1) by simp
next
  case replace
  from assms(1) have "descending (map snd (butlast es @ [last es]))"
    by (simp only: append_butlast_last_id[OF replace(2)])
  then have "descending (map snd (butlast es))"
    by (simp add: sorted_wrt_append)
  then show ?thesis unfolding replace(5) by (rule descending_place)
qed

lemma set_update_spec:
  assumes "distinct (map fst es)"
  shows "set (update_spec u c es) \<subseteq> insert (u, c) {x \<in> set es. fst x \<noteq> u}"
proof (cases es u c rule: update_spec_cases)
  case (found xs old ys)
  from assms have "u \<notin> fst ` set ys" unfolding found(1) by auto
  then have "\<forall>x \<in> set ys. fst x \<noteq> u" by (metis image_eqI)
  moreover from found(2) have "\<forall>x \<in> set xs. fst x \<noteq> u" by (metis image_eqI)
  ultimately show ?thesis unfolding found(3) by (auto simp: set_place found(1))
next
  case append
  then have "\<forall>x \<in> set es. fst x \<noteq> u" by (metis image_eqI)
  then show ?thesis unfolding append(3) by (auto simp: set_place)
next
  case reject
  then have "\<forall>x \<in> set es. fst x \<noteq> u" by (metis image_eqI)
  then show ?thesis unfolding reject(2) by auto
next
  case replace
  then have "\<forall>x \<in> set es. fst x \<noteq> u" by (metis image_eqI)
  then show ?thesis unfolding replace(5) by (auto simp: set_place dest: in_set_butlastD)
qed

lemma filter_update_spec:
  assumes "distinct (map fst es)"
  shows "filter (\<lambda>x. fst x \<noteq> u) (update_spec u c es)
           = filter (\<lambda>x. fst x \<noteq> u \<and> x \<in> set (update_spec u c es)) es"
proof (cases es u c rule: update_spec_cases)
  case (found xs old ys)
  have "filter (\<lambda>x. fst x \<noteq> u) (update_spec u c es) = filter (\<lambda>x. fst x \<noteq> u) (xs @ ys)"
    unfolding found(3) by (simp add: filter_place)
  also have "\<dots> = filter (\<lambda>x. fst x \<noteq> u \<and> x \<in> set (update_spec u c es)) (xs @ ys)"
    unfolding found(3) by (rule filter_cong) (auto simp: set_place)
  also have "\<dots> = filter (\<lambda>x. fst x \<noteq> u \<and> x \<in> set (update_spec u c es)) es"
    unfolding found(1) by simp
  finally show ?thesis .
next
  case append
  have "filter (\<lambda>x. fst x \<noteq> u) (update_spec u c es) = filter (\<lambda>x. fst x \<noteq> u) es"
    unfolding append(3) by (simp add: filter_place)
  also have "\<dots> = filter (\<lambda>x. fst x \<noteq> u \<and> x \<in> set (update_spec u c es)) es"
    unfolding append(3) by (rule filter_cong) (auto simp: set_place)
  finally show ?thesis .
next
  case reject
  show ?thesis unfolding reject(2) by (rule filter_cong) auto
next
  case replace
  let ?b = "butlast es"
  from replace(2) have es: "es = ?b @ [last es]" by simp
  from assms have "distinct es" by (rule distinct_map[THEN iffD1, THEN conjunct1])
  then have "distinct (?b @ [last es])" using es by simp
  then have ln: "last es \<notin> set ?b" by simp
  have lu: "fst (last es) \<noteq> u" using replace(1,2) by (metis image_eqI last_in_set)
  have "filter (\<lambda>x. fst x \<noteq> u) (update_spec u c es) = filter (\<lambda>x. fst x \<noteq> u) ?b"
    unfolding replace(5) by (simp add: filter_place)
  also have "\<dots> = filter (\<lambda>x. fst x \<noteq> u \<and> x \<in> set (update_spec u c es)) ?b"
    unfolding replace(5) by (rule filter_cong) (auto simp: set_place)
  also have "\<dots> = filter (\<lambda>x. fst x \<noteq> u \<and> x \<in> set (update_spec u c es)) (?b @ [last es])"
    unfolding replace(5) using ln lu by (auto simp: set_place)
  also have "\<dots> = filter (\<lambda>x. fst x \<noteq> u \<and> x \<in> set (update_spec u c es)) es"
    using es by simp
  finally show ?thesis .
qed

lemma behind_update_spec:
  assumes "distinct (map fst es)"
  shows "\<forall>y \<in> set (behind u (update_spec u c es)). y \<in> set (behind u es) \<or> snd y < c"
proof (cases es u c rule: update_spec_cases)
  case (found xs old ys)
  obtain xs1 xs2 where xs: "xs = xs1 @ xs2" and p: "place xs (u, c) = xs1 @ (u, c) # xs2"
    and low: "\<forall>x \<in> set xs2. snd x < snd (u, c)"
    by (rule place_split)
  have nx: "\<forall>x \<in> set xs. fst x \<noteq> u"
    using found(2) by (metis image_eqI)
  then have n1: "\<forall>x \<in> set xs1. fst x \<noteq> u"
    by (simp add: xs)
  have "behind u (update_spec u c es) = xs2 @ ys"
    unfolding found(3) p behind_def using n1 by (simp add: dropWhile_append2)
  moreover have "behind u es = ys"
    unfolding found(1) behind_def using nx by (simp add: dropWhile_append2)
  ultimately show ?thesis using low by auto
next
  case append
  have "\<forall>y \<in> set (behind (fst (u, c)) (place es (u, c))). snd y < snd (u, c)"
    by (rule behind_place) (simp add: append(1))
  then show ?thesis unfolding append(3) by simp
next
  case reject
  then show ?thesis by simp
next
  case replace
  have "fst (u, c) \<notin> fst ` set (butlast es)"
    using replace(1) by (auto dest: in_set_butlastD)
  then have "\<forall>y \<in> set (behind (fst (u, c)) (place (butlast es) (u, c))). snd y < snd (u, c)"
    by (rule behind_place)
  then show ?thesis unfolding replace(5) by simp
qed

lemma ahead_update_spec:
  assumes "u \<in> fst ` set es"
  shows "set (ahead u (update_spec u c es)) \<subseteq> set (ahead u es)"
proof (cases es u c rule: update_spec_cases)
  case (found xs old ys)
  obtain xs1 xs2 where xs: "xs = xs1 @ xs2" and p: "place xs (u, c) = xs1 @ (u, c) # xs2"
    by (rule place_split[of xs "(u, c)"])
  from found(2) xs have n1: "\<forall>x \<in> set xs1. fst x \<noteq> u" and nx: "\<forall>x \<in> set xs. fst x \<noteq> u"
    by auto
  have "ahead u (update_spec u c es) = xs1"
    unfolding found(3) p ahead_def using n1 by (simp add: takeWhile_append2)
  moreover have "ahead u es = xs"
    unfolding found(1) ahead_def using nx by (simp add: takeWhile_append2)
  ultimately show ?thesis using xs by simp
next
  case append
  with assms show ?thesis by simp
next
  case reject
  with assms show ?thesis by simp
next
  case replace
  with assms show ?thesis by simp
qed

section \<open>A call in closed form\<close>

lemma checked_add_Inr: "checked_add a b = Inr n \<longleftrightarrow> unat a + unat b < 2 ^ 256 \<and> n = a + b"
  by (auto simp: checked_add_def)

lemma checked_sub_Inr: "checked_sub a b = Inr n \<longleftrightarrow> b \<le> a \<and> n = a - b"
  by (auto simp: checked_sub_def)

lemma unat_plus_one: "unat (a :: uint256) + 1 < 2 ^ 256 \<Longrightarrow> unat (a + 1) = unat a + 1"
  using unat_add_lem[of a 1] by simp

lemma le_plus_one: "unat (a :: uint256) + 1 < 2 ^ 256 \<Longrightarrow> a \<le> a + 1"
  by (simp add: word_le_nat_alt unat_plus_one)

lemma entries_map [simp]: "zip (map fst es) (map snd es) = es"
  by (simp add: zip_map_fst_snd)

lemma assignOrUpdateBadge_iff:
  "assignOrUpdateBadge hook c u x = Inr y \<longleftrightarrow>
     (if badgeTier (userStats x u) < determineTier x (increments (userStats x u)) then
        (if userTokenId x u = 0 then
           u \<noteq> 0 \<and> tokenOwner x (nextTokenId x) = 0 \<and> receiver_accepts c \<and>
           unat (nextTokenId x) + 1 < 2 ^ 256 \<and>
           y = emit (BadgeAssigned u (nextTokenId x) (determineTier x (increments (userStats x u))))
                 ((hook (emit (Transfer 0 u (nextTokenId x))
                          ((setBadgeTier u (determineTier x (increments (userStats x u))) x)
                             \<lparr>nextTokenId := nextTokenId x + 1,
                              tokenOwner := (tokenOwner x)(nextTokenId x := u)\<rparr>)))
                    \<lparr>userTokenId :=
                       (userTokenId (hook (emit (Transfer 0 u (nextTokenId x))
                          ((setBadgeTier u (determineTier x (increments (userStats x u))) x)
                             \<lparr>nextTokenId := nextTokenId x + 1,
                              tokenOwner := (tokenOwner x)(nextTokenId x := u)\<rparr>))))
                       (u := nextTokenId x)\<rparr>)
         else y = emit (BadgeAssigned u (userTokenId x u) (determineTier x (increments (userStats x u))))
                    (setBadgeTier u (determineTier x (increments (userStats x u))) x))
      else y = x)"
  by (auto simp: assignOrUpdateBadge_def Let_def thenR_eq_Inr checked_add_Inr safeMint_def
      setBadgeTier_def emit_def)

lemma stepped_fields:
  "fee (stepped up c s) = fee s" "owner (stepped up c s) = owner s"
  "nextTokenId (stepped up c s) = nextTokenId s" "userTokenId (stepped up c s) = userTokenId s"
  "tokenOwner (stepped up c s) = tokenOwner s" "events (stepped up c s) = events s"
  "thresholds (stepped up c s) = thresholds s"
  "determineTier (stepped up c s) = determineTier s"
  "badgeTier (userStats (stepped up c s) a) = badgeTier (userStats s a)"
  "increments (userStats (stepped up c s) (msg_sender c))
     = (if up then increments (userStats s (msg_sender c)) + 1 else increments (userStats s (msg_sender c)))"
  by (auto simp: stepped_def Let_def thresholds_def determineTier_def fun_eq_iff)

lemma increment_iff:
  assumes len: "length (topAddresses s) = length (topCounts s)"
  shows "increment hook c s = Inr s' \<longleftrightarrow> can_act True c s \<and> s' = outcome hook True c s"
proof -
  let ?u = "msg_sender c"
  let ?s2 = "s\<lparr>count := count s + 1,
              incrementCount := (incrementCount s)(?u := incrementCount s ?u + 1)\<rparr>"
  have "length (topAddresses ?s2) = length (topCounts ?s2)" using len by simp
  from updateTopLeaderboard_entries[OF this, of ?u]
  have up: "updateTopLeaderboard ?u ?s2
              = Inr (?s2\<lparr>topAddresses := map fst (update_spec ?u (incrementCount s ?u + 1) (entries s)),
                        topCounts := map snd (update_spec ?u (incrementCount s ?u + 1) (entries s))\<rparr>)"
    by (simp add: entries_def)
  let ?s3 = "?s2\<lparr>topAddresses := map fst (update_spec ?u (incrementCount s ?u + 1) (entries s)),
                        topCounts := map snd (update_spec ?u (incrementCount s ?u + 1) (entries s))\<rparr>"
  have st: "?s3\<lparr>userStats := (userStats ?s3)(?u := (userStats ?s3 ?u)\<lparr>increments := increments (userStats ?s3 ?u) + 1\<rparr>)\<rparr>
              = stepped True c s"
    by (simp add: stepped_def Let_def)
  have body: "increment_body hook c s = Inr y \<longleftrightarrow>
                unat (count s) + 1 < 2 ^ 256 \<and> unat (incrementCount s ?u) + 1 < 2 ^ 256 \<and>
                unat (increments (userStats s ?u)) + 1 < 2 ^ 256 \<and>
                (\<exists>x. assignOrUpdateBadge hook c ?u (stepped True c s) = Inr x \<and> payout_succeeds c \<and>
                     y = emit (CounterChanged ?u 1 (count x)) x)" for y
    unfolding increment_body_def
    by (auto simp: Let_def thenR_eq_Inr checked_add_Inr up st[symmetric] payOwner_def)
  have badge: "assignOrUpdateBadge hook c ?u (stepped True c s) = Inr x \<longleftrightarrow>
                 (if tier_rises True c s \<and> userTokenId s ?u = 0 then mint_possible c s else True) \<and>
                 x = (if tier_rises True c s then
                        (if userTokenId s ?u = 0 then
                           (let z = hook (at_callback True c s)
                            in emit (BadgeAssigned ?u (nextTokenId s) (new_tier True c s))
                                 (z\<lparr>userTokenId := (userTokenId z)(?u := nextTokenId s)\<rparr>))
                         else emit (BadgeAssigned ?u (userTokenId s ?u) (new_tier True c s))
                                (setBadgeTier ?u (new_tier True c s) (stepped True c s)))
                      else stepped True c s)" for x
    unfolding assignOrUpdateBadge_iff stepped_fields
    by (auto simp: tier_rises_def new_tier_def at_callback_def mint_possible_def Let_def)
  show ?thesis
    unfolding increment_def onlyPaid_def timeLocked_def
    by (auto simp: thenR_eq_Inr body badge can_act_def outcome_def closing_def Let_def)
qed

lemma decrement_iff:
  assumes len: "length (topAddresses s) = length (topCounts s)"
  shows "decrement hook c s = Inr s' \<longleftrightarrow> can_act False c s \<and> s' = outcome hook False c s"
proof -
  let ?u = "msg_sender c"
  let ?s2 = "s\<lparr>count := count s - 1,
              incrementCount := (incrementCount s)(?u := incrementCount s ?u + 1)\<rparr>"
  have "length (topAddresses ?s2) = length (topCounts ?s2)" using len by simp
  from updateTopLeaderboard_entries[OF this, of ?u]
  have up: "updateTopLeaderboard ?u ?s2
              = Inr (?s2\<lparr>topAddresses := map fst (update_spec ?u (incrementCount s ?u + 1) (entries s)),
                        topCounts := map snd (update_spec ?u (incrementCount s ?u + 1) (entries s))\<rparr>)"
    by (simp add: entries_def)
  let ?s3 = "?s2\<lparr>topAddresses := map fst (update_spec ?u (incrementCount s ?u + 1) (entries s)),
                        topCounts := map snd (update_spec ?u (incrementCount s ?u + 1) (entries s))\<rparr>"
  have st: "?s3\<lparr>userStats := (userStats ?s3)(?u := (userStats ?s3 ?u)\<lparr>decrements := decrements (userStats ?s3 ?u) + 1\<rparr>)\<rparr>
              = stepped False c s"
    by (simp add: stepped_def Let_def)
  have one: "1 \<le> count s \<longleftrightarrow> 0 < count s"
    by (simp add: word_le_nat_alt word_less_nat_alt) arith
  have body: "decrement_body hook c s = Inr y \<longleftrightarrow>
                0 < count s \<and> unat (incrementCount s ?u) + 1 < 2 ^ 256 \<and>
                unat (decrements (userStats s ?u)) + 1 < 2 ^ 256 \<and>
                (\<exists>x. assignOrUpdateBadge hook c ?u (stepped False c s) = Inr x \<and> payout_succeeds c \<and>
                     y = emit (CounterChanged ?u (- 1) (count x)) x)" for y
    unfolding decrement_body_def
    by (auto simp: Let_def thenR_eq_Inr checked_add_Inr checked_sub_Inr one up st[symmetric] payOwner_def)
  have badge: "assignOrUpdateBadge hook c ?u (stepped False c s) = Inr x \<longleftrightarrow>
                 (if tier_rises False c s \<and> userTokenId s ?u = 0 then mint_possible c s else True) \<and>
                 x = (if tier_rises False c s then
                        (if userTokenId s ?u = 0 then
                           (let z = hook (at_callback False c s)
                            in emit (BadgeAssigned ?u (nextTokenId s) (new_tier False c s))
                                 (z\<lparr>userTokenId := (userTokenId z)(?u := nextTokenId s)\<rparr>))
                         else emit (BadgeAssigned ?u (userTokenId s ?u) (new_tier False c s))
                                (setBadgeTier ?u (new_tier False c s) (stepped False c s)))
                      else stepped False c s)" for x
    unfolding assignOrUpdateBadge_iff stepped_fields
    by (auto simp: tier_rises_def new_tier_def at_callback_def mint_possible_def Let_def)
  show ?thesis
    unfolding decrement_def onlyPaid_def timeLocked_def
    by (auto simp: thenR_eq_Inr body badge can_act_def outcome_def closing_def Let_def)
qed

lemma foldl_transact: "foldl transact s ts = run s ts"
  by (induction ts arbitrary: s) simp_all

lemma transact_increment:
  "length (topAddresses s) = length (topCounts s) \<Longrightarrow>
   transact s (Tx Increment c nested)
     = (if can_act True c s then outcome (\<lambda>x. run x nested) True c s else s)"
  using increment_iff[of s "\<lambda>x. run x nested" c]
  by (cases "increment (\<lambda>x. run x nested) c s") (auto simp: foldl_transact)

lemma transact_decrement:
  "length (topAddresses s) = length (topCounts s) \<Longrightarrow>
   transact s (Tx Decrement c nested)
     = (if can_act False c s then outcome (\<lambda>x. run x nested) False c s else s)"
  using decrement_iff[of s "\<lambda>x. run x nested" c]
  by (cases "decrement (\<lambda>x. run x nested) c s") (auto simp: foldl_transact)

lemma transact_owner:
  "\<not> is_action k \<Longrightarrow>
   transact s (Tx k c nested)
     = (if msg_value c = 0 \<and> msg_sender c = owner s then owner_effect k s else s)"
  by (cases k)
    (simp_all add: is_action_def owner_effect_def setFee_def resetCounter_def
      setBadgeThresholds_def onlyOwner_def)

lemma transact_cases:
  assumes "length (topAddresses s) = length (topCounts s)"
  obtains (reverted) "transact s (Tx k c nested) = s"
  | (action) up where "is_action k" "can_act up c s"
      "transact s (Tx k c nested) = outcome (\<lambda>x. run x nested) up c s"
  | (owner_call) "\<not> is_action k" "transact s (Tx k c nested) = owner_effect k s"
proof (cases "is_action k")
  case False
  with transact_owner[OF False, of s c nested] show thesis
    by (cases "msg_value c = 0 \<and> msg_sender c = owner s") (auto intro: reverted owner_call)
next
  case True
  then consider "k = Increment" | "k = Decrement"
    by (cases k) (simp_all add: is_action_def)
  then show thesis
  proof cases
    case 1
    with transact_increment[OF assms, of c nested] True show thesis
      by (cases "can_act True c s") (auto intro: reverted action)
  next
    case 2
    with transact_decrement[OF assms, of c nested] True show thesis
      by (cases "can_act False c s") (auto intro: reverted action)
  qed
qed

text \<open>How an invariant of the states is proved: it holds after the calls of a receiver too.\<close>

lemma invariant_transact:
  assumes len: "\<And>s. P s \<Longrightarrow> length (topAddresses s) = length (topCounts s)"
    and act: "\<And>hook up c s. P s \<Longrightarrow> can_act up c s \<Longrightarrow> (\<And>x. P x \<Longrightarrow> P (hook x))
                \<Longrightarrow> P (outcome hook up c s)"
    and own: "\<And>k s. P s \<Longrightarrow> \<not> is_action k \<Longrightarrow> P (owner_effect k s)"
  shows "P s \<Longrightarrow> P (transact s t)"
proof (induction s t rule: transact.induct)
  case (1 s k c nested)
  have hook: "P (run x nested)" if "P x" for x
    using that "1.IH"
  proof (induction nested arbitrary: x)
    case Nil
    then show ?case by simp
  next
    case (Cons n ns)
    from Cons.prems(2)[of n x] Cons.prems(1) have "P (transact x n)" by simp
    moreover have "\<And>y z. z \<in> set ns \<Longrightarrow> P y \<Longrightarrow> P (transact y z)"
      using Cons.prems(2) by simp
    ultimately show ?case using Cons.IH by simp
  qed
  show ?case
  proof (rule transact_cases[OF len[OF "1.prems"], of k c nested])
    assume "transact s (Tx k c nested) = s"
    with "1.prems" show ?thesis by simp
  next
    fix up assume "can_act up c s" "transact s (Tx k c nested) = outcome (\<lambda>x. run x nested) up c s"
    with act[OF "1.prems", of up c "\<lambda>x. run x nested"] hook show ?thesis by simp
  next
    assume "\<not> is_action k" "transact s (Tx k c nested) = owner_effect k s"
    with own[OF "1.prems"] show ?thesis by simp
  qed
qed

lemma invariant_run:
  assumes len: "\<And>s. P s \<Longrightarrow> length (topAddresses s) = length (topCounts s)"
    and act: "\<And>hook up c s. P s \<Longrightarrow> can_act up c s \<Longrightarrow> (\<And>x. P x \<Longrightarrow> P (hook x))
                \<Longrightarrow> P (outcome hook up c s)"
    and own: "\<And>k s. P s \<Longrightarrow> \<not> is_action k \<Longrightarrow> P (owner_effect k s)"
  shows "P s \<Longrightarrow> P (run s ts)"
proof (induction ts arbitrary: s)
  case Nil
  then show ?case by simp
next
  case (Cons t ts)
  from invariant_transact[of P, OF len act own, of s t] Cons.prems
  have "P (transact s t)" by blast
  then show ?case using Cons.IH by simp
qed

section \<open>The guards\<close>

lemma timeLocked_guard_iff:
  "timeLocked_guard c s = Inr () \<longleftrightarrow>
     unat (lastActionTime (userStats s (msg_sender c))) + 3600 \<le> unat (block_timestamp c)"
proof -
  let ?l = "lastActionTime (userStats s (msg_sender c))"
  have b: "unat (block_timestamp c) < 2 ^ 256" using unsigned_less[of "block_timestamp c", where ?'a = nat] by simp
  show ?thesis
  proof (cases "unat ?l + 3600 < 2 ^ 256")
    case True
    then have "unat (?l + 3600) = unat ?l + 3600"
      using unat_add_lem[of ?l 3600] by simp
    with True show ?thesis
      by (simp add: timeLocked_guard_def checked_add_def COOLDOWN_SECONDS_def word_le_nat_alt)
  next
    case False
    with b show ?thesis
      by (simp add: timeLocked_guard_def checked_add_def COOLDOWN_SECONDS_def)
  qed
qed

lemma timeLocked_guard_locked:
  assumes "unat (block_timestamp c) < unat (lastActionTime (userStats s (msg_sender c))) + 3600"
    and "unat (lastActionTime (userStats s (msg_sender c))) + 3600 < 2 ^ 256"
  shows "timeLocked_guard c s = Inl ActionLocked"
proof -
  let ?l = "lastActionTime (userStats s (msg_sender c))"
  have "unat (?l + 3600) = unat ?l + 3600"
    using assms(2) unat_add_lem[of ?l 3600] by simp
  with assms show ?thesis
    by (simp add: timeLocked_guard_def checked_add_def COOLDOWN_SECONDS_def word_le_nat_alt)
qed

lemma timeLocked_rejects:
  "timeLocked_guard c s = Inl e \<Longrightarrow> timeLocked c body s = Inl e"
  by (simp add: timeLocked_def)

lemma guard_cases: "(\<exists>e. timeLocked_guard c s = Inl e) \<or> timeLocked_guard c s = Inr ()"
  by (cases "timeLocked_guard c s") auto

section \<open>The leaderboard and the statistics in every reachable state\<close>

lemma board_inv_entries:
  assumes "board_inv s"
  shows "map fst (entries s) = topAddresses s" "map snd (entries s) = topCounts s"
    "distinct (map fst (entries s))" "descending (map snd (entries s))" "length (entries s) \<le> 20"
  using assms by (simp_all add: board_inv_def entries_def MAX_TOP_def)

lemma board_inv_frame:
  "topAddresses x' = topAddresses x \<Longrightarrow> topCounts x' = topCounts x \<Longrightarrow>
   incrementCount x' = incrementCount x \<Longrightarrow> board_inv x' = board_inv x"
  by (simp add: board_inv_def entries_def)

lemma stats_inv_frame:
  "incrementCount x' = incrementCount x \<Longrightarrow>
   (\<And>a. increments (userStats x' a) = increments (userStats x a)) \<Longrightarrow>
   (\<And>a. decrements (userStats x' a) = decrements (userStats x a)) \<Longrightarrow>
   stats_inv x' = stats_inv x"
  by (simp add: stats_inv_def)

lemma board_inv_stepped:
  assumes inv: "board_inv s" and can: "can_act up c s"
  shows "board_inv (stepped up c s)"
proof -
  let ?u = "msg_sender c"
  let ?c = "incrementCount s ?u + 1"
  let ?es' = "update_spec ?u ?c (entries s)"
  note e = board_inv_entries[OF inv]
  from can have ov: "unat (incrementCount s ?u) + 1 < 2 ^ 256" by (simp add: can_act_def)
  have old: "\<forall>old. (?u, old) \<in> set (entries s) \<longrightarrow> old \<le> ?c"
  proof (intro allI impI)
    fix old assume "(?u, old) \<in> set (entries s)"
    with inv have "old = incrementCount s ?u" by (auto simp: board_inv_def)
    then show "old \<le> ?c" using ov by (simp add: le_plus_one)
  qed
  have sc: "\<forall>x \<in> set ?es'. snd x = ((incrementCount s)(?u := ?c)) (fst x)"
  proof
    fix x assume "x \<in> set ?es'"
    with set_update_spec[OF e(3), of ?u ?c]
    have "x = (?u, ?c) \<or> (x \<in> set (entries s) \<and> fst x \<noteq> ?u)" by auto
    then show "snd x = ((incrementCount s)(?u := ?c)) (fst x)"
      using inv by (auto simp: board_inv_def)
  qed
  have "entries (stepped up c s) = ?es'" by (simp add: stepped_def entries_def Let_def)
  then show ?thesis
    unfolding board_inv_def using sc
    by (simp add: stepped_def Let_def MAX_TOP_def length_update_spec[OF e(5)]
        distinct_update_spec[OF e(3)] descending_update_spec[OF e(4) old])
qed

lemma stats_inv_stepped:
  assumes inv: "stats_inv s" and can: "can_act up c s"
  shows "stats_inv (stepped up c s)"
proof -
  let ?u = "msg_sender c"
  from can have ov: "unat (incrementCount s ?u) + 1 < 2 ^ 256"
    and ovi: "up \<Longrightarrow> unat (increments (userStats s ?u)) + 1 < 2 ^ 256"
    and ovd: "\<not> up \<Longrightarrow> unat (decrements (userStats s ?u)) + 1 < 2 ^ 256"
    by (simp_all add: can_act_def)
  show ?thesis
    unfolding stats_inv_def
    using inv ov ovi ovd by (cases up) (simp_all add: stepped_def Let_def stats_inv_def unat_plus_one)
qed

text \<open>
  What the statements of a call other than those of \<open>stepped\<close> leave alone: the leaderboard,
  the action counts and the two statistics.
\<close>

lemma outcome_frame:
  assumes hook: "\<And>x. P x \<Longrightarrow> P (hook x)"
    and frame: "\<And>x x'. topAddresses x' = topAddresses x \<Longrightarrow> topCounts x' = topCounts x \<Longrightarrow>
        incrementCount x' = incrementCount x \<Longrightarrow>
        (\<forall>a. increments (userStats x' a) = increments (userStats x a)) \<Longrightarrow>
        (\<forall>a. decrements (userStats x' a) = decrements (userStats x a)) \<Longrightarrow> P x \<Longrightarrow> P x'"
    and st: "P (stepped up c s)"
  shows "P (outcome hook up c s)"
proof -
  have cl: "P (closing up c x)" if "P x" for x
    using that by (rule frame[rotated -1]) (simp_all add: closing_def setLastActionTime_def emit_def)
  have "P (at_callback up c s)"
    using st by (rule frame[rotated -1]) (simp_all add: at_callback_def setBadgeTier_def emit_def)
  then have "P (hook (at_callback up c s))" by (rule hook)
  then have m: "P (emit (BadgeAssigned (msg_sender c) (nextTokenId s) (new_tier up c s))
             ((hook (at_callback up c s))\<lparr>userTokenId :=
                 (userTokenId (hook (at_callback up c s)))(msg_sender c := nextTokenId s)\<rparr>))"
    by (rule frame[rotated -1]) (simp_all add: emit_def)
  have n: "P (emit (BadgeAssigned (msg_sender c) (userTokenId s (msg_sender c)) (new_tier up c s))
                  (setBadgeTier (msg_sender c) (new_tier up c s) (stepped up c s)))"
    using st by (rule frame[rotated -1]) (simp_all add: setBadgeTier_def emit_def)
  show ?thesis
    unfolding outcome_def Let_def using m n st by (auto intro: cl)
qed

lemma owner_effect_frame:
  "topAddresses (owner_effect k s) = topAddresses s" "topCounts (owner_effect k s) = topCounts s"
  "incrementCount (owner_effect k s) = incrementCount s" "userStats (owner_effect k s) = userStats s"
  "userTokenId (owner_effect k s) = userTokenId s" "nextTokenId (owner_effect k s) = nextTokenId s"
  "mints a (owner_effect k s) = mints a s" "entries (owner_effect k s) = entries s"
  by (cases k; simp add: owner_effect_def emit_def mints_def is_mint_to_def entries_def)+

lemma state_inv_run:
  assumes "state_inv s"
  shows "state_inv (run s ts)"
proof (rule invariant_run[of state_inv, OF _ _ _ assms])
  show "length (topAddresses s) = length (topCounts s)" if "state_inv s" for s
    using that by (simp add: state_inv_def board_inv_def)
  show "state_inv (owner_effect k s)" if "state_inv s" for k s
    using that board_inv_frame[of "owner_effect k s" s] stats_inv_frame[of "owner_effect k s" s]
    by (simp add: state_inv_def owner_effect_frame)
  show "state_inv (outcome hook up c s)"
    if inv: "state_inv s" and can: "can_act up c s" and hook: "\<And>x. state_inv x \<Longrightarrow> state_inv (hook x)"
    for hook up c s
  proof (rule outcome_frame[of state_inv, OF hook])
    show "state_inv (stepped up c s)"
      using inv can by (simp add: state_inv_def board_inv_stepped stats_inv_stepped)
    show "state_inv x'"
      if "topAddresses x' = topAddresses x" "topCounts x' = topCounts x"
        "incrementCount x' = incrementCount x"
        "\<forall>a. increments (userStats x' a) = increments (userStats x a)"
        "\<forall>a. decrements (userStats x' a) = decrements (userStats x a)" "state_inv x" for x x'
      using that board_inv_frame[of x' x] stats_inv_frame[of x' x] by (simp add: state_inv_def)
  qed
qed

lemma state_inv_constructor: "state_inv (constructor d f)"
  by (simp add: state_inv_def board_inv_def stats_inv_def constructor_def entries_def MAX_TOP_def)

text \<open>
  In a call that goes through, the state in which \<open>_safeMint\<close> hands control to the receiver
  has the two invariants as well, so that the calls of the receiver start in such a state.
\<close>

lemma state_inv_at_callback:
  assumes "state_inv s" "can_act up c s"
  shows "state_inv (at_callback up c s)"
proof -
  have st: "state_inv (stepped up c s)"
    using assms by (simp add: state_inv_def board_inv_stepped stats_inv_stepped)
  have "board_inv (at_callback up c s) = board_inv (stepped up c s)"
    by (rule board_inv_frame) (simp_all add: at_callback_def setBadgeTier_def emit_def)
  moreover have "stats_inv (at_callback up c s) = stats_inv (stepped up c s)"
    by (rule stats_inv_frame) (simp_all add: at_callback_def setBadgeTier_def emit_def)
  ultimately show ?thesis using st by (simp add: state_inv_def)
qed

section \<open>Running concrete scenarios\<close>

declare transact.simps [simp del]

lemmas scenario_simps =
  transact_increment transact_decrement transact_owner is_action_def can_act_def
  mint_possible_def tier_rises_def new_tier_def outcome_def stepped_def at_callback_def
  closing_def setBadgeTier_def setLastActionTime_def emit_def owner_effect_def
  timeLocked_guard_iff update_spec_def place_def entries_def determineTier_def
  call_from_def constructor_def Let_def word_le_nat_alt word_less_nat_alt

section \<open>The tier ratchet and the stability of the update\<close>

lemma tier_at_least_run:
  assumes "tier_at_least a T s"
  shows "tier_at_least a T (run s ts)"
proof (rule invariant_run[of "tier_at_least a T", OF _ _ _ assms])
  show "length (topAddresses s) = length (topCounts s)" if "tier_at_least a T s" for s
    using that by (simp add: tier_at_least_def)
  show "tier_at_least a T (owner_effect k s)" if "tier_at_least a T s" for k s
    using that by (simp add: tier_at_least_def owner_effect_frame)
  show "tier_at_least a T (outcome hook up c s)"
    if inv: "tier_at_least a T s" and hook: "\<And>x. tier_at_least a T x \<Longrightarrow> tier_at_least a T (hook x)"
    for hook up c s
  proof -
    let ?u = "msg_sender c"
    have fr: "tier_at_least a T x'"
      if "topAddresses x' = topAddresses x" "topCounts x' = topCounts x"
        "badgeTier (userStats x' a) = badgeTier (userStats x a)" "tier_at_least a T x" for x x'
      using that by (simp add: tier_at_least_def)
    have st: "tier_at_least a T (stepped up c s)"
      using inv by (simp add: tier_at_least_def stepped_fields) (simp add: stepped_def Let_def)
    have cl: "tier_at_least a T (closing up c x)" if "tier_at_least a T x" for x
      using that by (auto simp: tier_at_least_def closing_def setLastActionTime_def emit_def)
    have sb: "tier_at_least a T (setBadgeTier ?u (new_tier up c s) (stepped up c s))"
      if "tier_rises up c s"
    proof -
      from inv have "T \<le> badgeTier (userStats s a)" by (simp add: tier_at_least_def)
      moreover from that have "badgeTier (userStats s ?u) \<le> new_tier up c s"
        by (simp add: tier_rises_def less_imp_le)
      ultimately have "T \<le> (if a = ?u then new_tier up c s else badgeTier (userStats s a))"
        by (auto intro: order_trans)
      then show ?thesis
        using st by (auto simp: tier_at_least_def setBadgeTier_def stepped_fields)
    qed
    have cb: "tier_at_least a T (at_callback up c s)" if "tier_rises up c s"
      using sb[OF that] by (simp add: tier_at_least_def at_callback_def emit_def)
    have m: "tier_at_least a T (emit (BadgeAssigned ?u (nextTokenId s) (new_tier up c s))
             ((hook (at_callback up c s))\<lparr>userTokenId :=
                 (userTokenId (hook (at_callback up c s)))(?u := nextTokenId s)\<rparr>))"
      if "tier_rises up c s"
      using hook[OF cb[OF that]] by (simp add: tier_at_least_def emit_def)
    have n: "tier_at_least a T (emit (BadgeAssigned ?u (userTokenId s ?u) (new_tier up c s))
                  (setBadgeTier ?u (new_tier up c s) (stepped up c s)))"
      if "tier_rises up c s"
      using sb[OF that] by (simp add: tier_at_least_def emit_def)
    show ?thesis
      unfolding outcome_def Let_def using m n st by (auto intro: cl)
  qed
qed

lemma updateTopLeaderboard_stable:
  assumes len: "length (topAddresses s) = length (topCounts s)"
    and dis: "distinct (topAddresses s)"
    and up: "updateTopLeaderboard u s = Inr s'"
  shows "filter (\<lambda>x. fst x \<noteq> u) (entries s')
           = filter (\<lambda>x. fst x \<noteq> u \<and> x \<in> set (entries s')) (entries s)"
    and "\<forall>y \<in> set (behind u (entries s')). y \<in> set (behind u (entries s)) \<or> snd y < incrementCount s u"
proof -
  from updateTopLeaderboard_entries[OF len, of u] up
  have e: "entries s' = update_spec u (incrementCount s u) (entries s)"
    by (auto simp: entries_def)
  have d: "distinct (map fst (entries s))" using len dis by (simp add: entries_def)
  show "filter (\<lambda>x. fst x \<noteq> u) (entries s')
           = filter (\<lambda>x. fst x \<noteq> u \<and> x \<in> set (entries s')) (entries s)"
    unfolding e by (rule filter_update_spec[OF d])
  show "\<forall>y \<in> set (behind u (entries s')). y \<in> set (behind u (entries s)) \<or> snd y < incrementCount s u"
    unfolding e by (rule behind_update_spec[OF d])
qed

text \<open>
  A call of \<open>_updateTopLeaderboard\<close> on arrays of one length without a repeated address
  succeeds, is the specified update of the entries, and leaves such arrays.
\<close>

lemma updateTopLeaderboard_call:
  assumes len: "length (topAddresses s) = length (topCounts s)"
    and dis: "distinct (topAddresses s)"
  obtains s' where "updateTopLeaderboard u s = Inr s'"
    and "entries s' = update_spec u (incrementCount s u) (entries s)"
    and "length (topAddresses s') = length (topCounts s')"
    and "distinct (topAddresses s')"
    and "incrementCount s' = incrementCount s"
proof -
  let ?es' = "update_spec u (incrementCount s u) (entries s)"
  let ?s' = "s\<lparr>topAddresses := map fst ?es', topCounts := map snd ?es'\<rparr>"
  have d: "distinct (map fst (entries s))" using len dis by (simp add: entries_def)
  show thesis
  proof (rule that[of ?s'])
    show "updateTopLeaderboard u s = Inr ?s'" by (rule updateTopLeaderboard_entries[OF len])
    show "entries ?s' = ?es'" by (simp add: entries_def)
    show "length (topAddresses ?s') = length (topCounts ?s')" by simp
    show "distinct (topAddresses ?s')" using distinct_update_spec[OF d, of u "incrementCount s u"] by simp
    show "incrementCount ?s' = incrementCount s" by simp
  qed
qed

section \<open>The badge invariant without calls of the receiver\<close>

lemma badge_step:
  fixes old tier :: uint256
  assumes inv: "badge_inv s"
    and old: "old = badgeTier (userStats s u)"
    and tr: "\<And>a. badgeTier (userStats s' a)
                = (if a = u then (if old < tier then tier else old) else badgeTier (userStats s a))"
    and ut: "userTokenId s' = (if old < tier \<and> userTokenId s u = 0 then (userTokenId s)(u := nextTokenId s) else userTokenId s)"
    and nt: "nextTokenId s' = (if old < tier \<and> userTokenId s u = 0 then nextTokenId s + 1 else nextTokenId s)"
    and ov: "old < tier \<and> userTokenId s u = 0 \<Longrightarrow> unat (nextTokenId s) + 1 < 2 ^ 256 \<and> u \<noteq> 0"
    and mi: "\<And>a. mints a s' = mints a s + (if old < tier \<and> userTokenId s u = 0 \<and> a = u then 1 else 0)"
  shows "badge_inv s'"
    and "mints a s' = mints a s
           + (if badgeTier (userStats s a) = 0 \<and> badgeTier (userStats s' a) \<noteq> 0 then 1 else 0)"
proof -
  from inv have n0: "nextTokenId s \<noteq> 0"
    and tok: "\<And>a. userTokenId s a = 0 \<longleftrightarrow> badgeTier (userStats s a) = 0"
    and mn: "\<And>a. mints a s = (if badgeTier (userStats s a) = 0 then 0 else 1)"
    by (simp_all add: badge_inv_def)
  have pos: "tier \<noteq> 0" if "old < tier"
    using that by (auto simp: word_less_nat_alt)
  have up: "old = 0" if "old < tier" "userTokenId s u = 0"
    using that tok[of u] old by simp
  have n0': "nextTokenId s' \<noteq> 0"
  proof (cases "old < tier \<and> userTokenId s u = 0")
    case True
    with ov have "unat (nextTokenId s + 1) = unat (nextTokenId s) + 1" by (simp add: unat_plus_one)
    then have "nextTokenId s + 1 \<noteq> 0" by auto
    with True nt show ?thesis by simp
  next
    case False
    with nt n0 show ?thesis by auto
  qed
  have each: "(userTokenId s' a = 0 \<longleftrightarrow> badgeTier (userStats s' a) = 0) \<and>
              mints a s' = (if badgeTier (userStats s' a) = 0 then 0 else 1) \<and>
              mints a s' = mints a s
                + (if badgeTier (userStats s a) = 0 \<and> badgeTier (userStats s' a) \<noteq> 0 then 1 else 0)" for a
  proof (cases "a = u")
    case False
    then show ?thesis using tok[of a] mn[of a] by (simp add: tr ut mi)
  next
    case True
    show ?thesis
    proof (cases "old < tier")
      case lt: True
      show ?thesis
      proof (cases "userTokenId s u = 0")
        case z: True
        from up[OF lt z] have "badgeTier (userStats s u) = 0" using old by simp
        then show ?thesis using True lt z pos[OF lt] n0 mn[of u] by (simp add: tr ut mi)
      next
        case nz: False
        with tok[of u] have "badgeTier (userStats s u) \<noteq> 0" by simp
        then show ?thesis using True lt nz pos[OF lt] mn[of u] by (simp add: tr ut mi)
      qed
    next
      case False
      then show ?thesis using True tok[of u] mn[of u] old by (simp add: tr ut mi)
    qed
  qed
  from n0' each show "badge_inv s'" by (simp add: badge_inv_def)
  from each[of a] show "mints a s' = mints a s
           + (if badgeTier (userStats s a) = 0 \<and> badgeTier (userStats s' a) \<noteq> 0 then 1 else 0)"
    by blast
qed


lemma outcome_plain_fields:
  "badgeTier (userStats (outcome (\<lambda>x. x) up c s) a)
     = (if a = msg_sender c
        then (if badgeTier (userStats s (msg_sender c)) < new_tier up c s then new_tier up c s
              else badgeTier (userStats s (msg_sender c)))
        else badgeTier (userStats s a))"
  "userTokenId (outcome (\<lambda>x. x) up c s)
     = (if badgeTier (userStats s (msg_sender c)) < new_tier up c s \<and> userTokenId s (msg_sender c) = 0
        then (userTokenId s)(msg_sender c := nextTokenId s) else userTokenId s)"
  "nextTokenId (outcome (\<lambda>x. x) up c s)
     = (if badgeTier (userStats s (msg_sender c)) < new_tier up c s \<and> userTokenId s (msg_sender c) = 0
        then nextTokenId s + 1 else nextTokenId s)"
  "mints a (outcome (\<lambda>x. x) up c s)
     = mints a s + (if badgeTier (userStats s (msg_sender c)) < new_tier up c s \<and>
                       userTokenId s (msg_sender c) = 0 \<and> a = msg_sender c then 1 else 0)"
  "length (topAddresses (outcome (\<lambda>x. x) up c s)) = length (topCounts (outcome (\<lambda>x. x) up c s))"
  by (auto simp: outcome_def Let_def closing_def at_callback_def tier_rises_def stepped_def
      setBadgeTier_def setLastActionTime_def emit_def mints_def is_mint_to_def)

lemma badge_inv_plain_transact:
  assumes len: "length (topAddresses s) = length (topCounts s)" and inv: "badge_inv s"
    and pl: "plain t"
  shows "length (topAddresses (transact s t)) = length (topCounts (transact s t))"
    and "badge_inv (transact s t)"
    and "mints a (transact s t) = mints a s
           + (if badgeTier (userStats s a) = 0 \<and> badgeTier (userStats (transact s t) a) \<noteq> 0 then 1 else 0)"
proof -
  obtain k c where t: "t = Tx k c []" using pl by (cases t) simp
  have "length (topAddresses (transact s t)) = length (topCounts (transact s t)) \<and>
        badge_inv (transact s t) \<and>
        mints a (transact s t) = mints a s
           + (if badgeTier (userStats s a) = 0 \<and> badgeTier (userStats (transact s t) a) \<noteq> 0 then 1 else 0)"
    unfolding t
  proof (rule transact_cases[OF len, where k = k and c = c and nested = "[]"])
    assume "transact s (Tx k c []) = s"
    then show "length (topAddresses (transact s (Tx k c []))) = length (topCounts (transact s (Tx k c []))) \<and>
        badge_inv (transact s (Tx k c [])) \<and>
        mints a (transact s (Tx k c [])) = mints a s
           + (if badgeTier (userStats s a) = 0 \<and> badgeTier (userStats (transact s (Tx k c [])) a) \<noteq> 0 then 1 else 0)"
      using len inv by simp
  next
    assume "\<not> is_action k" and e: "transact s (Tx k c []) = owner_effect k s"
    show "length (topAddresses (transact s (Tx k c []))) = length (topCounts (transact s (Tx k c []))) \<and>
        badge_inv (transact s (Tx k c [])) \<and>
        mints a (transact s (Tx k c [])) = mints a s
           + (if badgeTier (userStats s a) = 0 \<and> badgeTier (userStats (transact s (Tx k c [])) a) \<noteq> 0 then 1 else 0)"
      unfolding e using len inv by (simp add: owner_effect_frame badge_inv_def)
  next
    fix up assume "is_action k" and can: "can_act up c s"
      and e: "transact s (Tx k c []) = outcome (\<lambda>x. run x []) up c s"
    let ?s' = "outcome (\<lambda>x. x) up c s"
    have e': "transact s (Tx k c []) = ?s'" using e by simp
    have ov: "unat (nextTokenId s) + 1 < 2 ^ 256 \<and> msg_sender c \<noteq> 0"
      if "badgeTier (userStats s (msg_sender c)) < new_tier up c s \<and> userTokenId s (msg_sender c) = 0"
      using can that by (simp add: can_act_def tier_rises_def mint_possible_def)
    have b1: "badge_inv ?s'"
      by (rule badge_step(1)[where s = s and s' = "?s'" and u = "msg_sender c"
            and tier = "new_tier up c s", OF inv refl outcome_plain_fields(1)
            outcome_plain_fields(2) outcome_plain_fields(3) ov outcome_plain_fields(4)])
    have b2: "mints a ?s' = mints a s
           + (if badgeTier (userStats s a) = 0 \<and> badgeTier (userStats ?s' a) \<noteq> 0 then 1 else 0)"
      by (rule badge_step(2)[where s = s and s' = "?s'" and u = "msg_sender c"
            and tier = "new_tier up c s" and a = a, OF inv refl outcome_plain_fields(1)
            outcome_plain_fields(2) outcome_plain_fields(3) ov outcome_plain_fields(4)])
    note b = b1 b2
    show "length (topAddresses (transact s (Tx k c []))) = length (topCounts (transact s (Tx k c []))) \<and>
        badge_inv (transact s (Tx k c [])) \<and>
        mints a (transact s (Tx k c [])) = mints a s
           + (if badgeTier (userStats s a) = 0 \<and> badgeTier (userStats (transact s (Tx k c [])) a) \<noteq> 0 then 1 else 0)"
      unfolding e' using b outcome_plain_fields(5)[of up c s] by blast
  qed
  then show "length (topAddresses (transact s t)) = length (topCounts (transact s t))"
    and "badge_inv (transact s t)"
    and "mints a (transact s t) = mints a s
           + (if badgeTier (userStats s a) = 0 \<and> badgeTier (userStats (transact s t) a) \<noteq> 0 then 1 else 0)"
    by blast+
qed

lemma badge_inv_plain_run:
  "length (topAddresses s) = length (topCounts s) \<Longrightarrow> badge_inv s \<Longrightarrow> list_all plain ts \<Longrightarrow>
   length (topAddresses (run s ts)) = length (topCounts (run s ts)) \<and> badge_inv (run s ts)"
proof (induction ts arbitrary: s)
  case Nil
  then show ?case by simp
next
  case (Cons t ts)
  from Cons.prems(3) have p: "plain t" "list_all plain ts" by simp_all
  from badge_inv_plain_transact(1,2)[OF Cons.prems(1,2) p(1)] Cons.IH[OF _ _ p(2)]
  show ?case by simp
qed

lemma badge_inv_constructor: "badge_inv (constructor d f)"
  by (simp add: badge_inv_def constructor_def mints_def)

section \<open>A full leaderboard\<close>

lemma update_entries:
  "length (topAddresses s) = length (topCounts s) \<Longrightarrow>
   update a n s = Inr (s\<lparr>incrementCount := (incrementCount s)(a := n),
                          topAddresses := map fst (update_spec a n (entries s)),
                          topCounts := map snd (update_spec a n (entries s))\<rparr>)"
  unfolding update_def
  by (subst updateTopLeaderboard_entries) (simp_all add: entries_def)

lemma scenario_21:
  "case updates ascending_21 (constructor 9 0) of
     Inl e \<Rightarrow> False
   | Inr s' \<Rightarrow>
       topAddresses s' = [21, 20, 19, 18, 17, 16, 15, 14, 13, 12, 11, 10, 9, 8, 7, 6, 5, 4, 3, 2] \<and>
       topCounts s' = [21, 20, 19, 18, 17, 16, 15, 14, 13, 12, 11, 10, 9, 8, 7, 6, 5, 4, 3, 2]"
  by (simp add: ascending_21_def update_entries entries_def update_spec_def place_def constructor_def
      word_le_nat_alt word_less_nat_alt)

lemma full_board_update:
  assumes la: "length (topAddresses s) = MAX_TOP" and lc: "length (topCounts s) = MAX_TOP"
    and nu: "user \<notin> set (topAddresses s)"
  shows "update_spec user c (entries s)
           = (if c \<le> last (topCounts s) then entries s else place (butlast (entries s)) (user, c))"
proof -
  have len: "length (entries s) = 20" using la lc by (simp add: entries_def MAX_TOP_def)
  then have ne: "entries s \<noteq> []" by auto
  have "map fst (entries s) = topAddresses s" using la lc by (simp add: entries_def)
  with nu have nf: "user \<notin> fst ` set (entries s)" by (metis list.set_map)
  have "map snd (entries s) = topCounts s" using la lc by (simp add: entries_def)
  then have "last (topCounts s) = snd (last (entries s))" using ne by (metis last_map)
  with nf len show ?thesis by (simp add: update_spec_def)
qed

section \<open>The tier table\<close>

lemma determineTier_table:
  assumes "thresholds s = map fst tier_table"
  shows "determineTier s n = recompute_spec n"
proof -
  from assms have th: "bronzeThreshold s = 10" "silverThreshold s = 25" "goldThreshold s = 50"
    "platinumThreshold s = 100" "diamondThreshold s = 250" "masterThreshold s = 500"
    "legendaryThreshold s = 1000"
    by (simp_all add: thresholds_def tier_table_def)
  show ?thesis
    unfolding determineTier_def recompute_spec_def tier_table_def th
    by (simp add: word_le_nat_alt)
qed

lemma determineTier_pure:
  "thresholds s = thresholds s' \<Longrightarrow> determineTier s n = determineTier s' n"
  by (simp add: thresholds_def determineTier_def)

lemma outcome_plain_board:
  "entries (outcome (\<lambda>x. x) up c s)
     = update_spec (msg_sender c) (incrementCount s (msg_sender c) + 1) (entries s)"
  "incrementCount (outcome (\<lambda>x. x) up c s)
     = (incrementCount s)(msg_sender c := incrementCount s (msg_sender c) + 1)"
  "increments (userStats (outcome (\<lambda>x. x) up c s) (msg_sender c))
     = (if up then increments (userStats s (msg_sender c)) + 1 else increments (userStats s (msg_sender c)))"
  by (auto simp: outcome_def Let_def closing_def at_callback_def stepped_def setBadgeTier_def
      setLastActionTime_def emit_def entries_def)

section \<open>Properties of the guards\<close>

text \<open>
  C4. A call of \<open>increment\<close> or \<open>decrement\<close> whose payment differs from the configured fee
  fails with "Must pay exact fee", and the transaction leaves the whole state (counter, user
  statistics, leaderboard, badge state) as it was, whatever a token receiver would have done.
\<close>

theorem payment_mismatch_rejected:
  assumes "msg_value c \<noteq> fee s"
  shows "increment hook c s = Inl MustPayExactFee \<and> decrement hook c s = Inl MustPayExactFee \<and>
         transact s (Tx Increment c nested) = s \<and> transact s (Tx Decrement c nested) = s"
  using assms by (simp add: increment_def decrement_def onlyPaid_def transact.simps)

theorem payment_mismatch_rejected_witness:
  "msg_value (call_from 1 0 3600) \<noteq> fee (constructor 9 5) \<and>
   increment (\<lambda>x. x) (call_from 1 0 3600) (constructor 9 5) = Inl MustPayExactFee \<and>
   decrement (\<lambda>x. x) (call_from 1 0 3600) (constructor 9 5) = Inl MustPayExactFee \<and>
   transact (constructor 9 5) (Tx Increment (call_from 1 0 3600) []) = constructor 9 5 \<and>
   transact (constructor 9 5) (Tx Decrement (call_from 1 0 3600) []) = constructor 9 5"
  using payment_mismatch_rejected[of "call_from 1 0 3600" "constructor 9 5" "\<lambda>x. x" "[]"]
  by (simp add: call_from_def constructor_def)

text \<open>
  C5. A call made strictly before \<open>lastActionTime + COOLDOWN_SECONDS\<close> (one hour) is rejected
  and the state stays as it was; when the payment is right and the sum does not overflow the
  rejection is "Action locked". A call made at or after that instant passes the guard of
  \<open>timeLocked\<close>. A successful call leaves \<open>lastActionTime\<close> of the caller at the block time.
\<close>

theorem cooldown_guard:
  "(unat (block_timestamp c) < unat (lastActionTime (userStats s (msg_sender c))) + unat COOLDOWN_SECONDS \<longrightarrow>
      (\<exists>e. increment hook c s = Inl e) \<and> (\<exists>e. decrement hook c s = Inl e) \<and>
      transact s (Tx Increment c nested) = s \<and> transact s (Tx Decrement c nested) = s \<and>
      (msg_value c = fee s \<and> unat (lastActionTime (userStats s (msg_sender c))) + unat COOLDOWN_SECONDS < 2 ^ 256 \<longrightarrow>
         increment hook c s = Inl ActionLocked \<and> decrement hook c s = Inl ActionLocked)) \<and>
   (unat (lastActionTime (userStats s (msg_sender c))) + unat COOLDOWN_SECONDS \<le> unat (block_timestamp c) \<longrightarrow>
      timeLocked_guard c s = Inr ()) \<and>
   (increment hook c s = Inr s' \<or> decrement hook c s = Inr s' \<longrightarrow>
      lastActionTime (userStats s' (msg_sender c)) = block_timestamp c)"
proof (intro conjI impI)
  assume early: "unat (block_timestamp c) < unat (lastActionTime (userStats s (msg_sender c))) + unat COOLDOWN_SECONDS"
  then have "timeLocked_guard c s \<noteq> Inr ()"
    by (simp add: timeLocked_guard_iff COOLDOWN_SECONDS_def)
  then obtain e where e: "timeLocked_guard c s = Inl e"
    using guard_cases[of c s] by auto
  then have t: "timeLocked c body s = Inl e" for body by (rule timeLocked_rejects)
  show i: "\<exists>e. increment hook c s = Inl e" and d: "\<exists>e. decrement hook c s = Inl e" for hook
    by (simp_all add: increment_def decrement_def onlyPaid_def t)
  from i[of "\<lambda>s'. foldl transact s' nested"] show "transact s (Tx Increment c nested) = s"
    by (auto simp: transact.simps)
  from d[of "\<lambda>s'. foldl transact s' nested"] show "transact s (Tx Decrement c nested) = s"
    by (auto simp: transact.simps)
  assume "msg_value c = fee s \<and> unat (lastActionTime (userStats s (msg_sender c))) + unat COOLDOWN_SECONDS < 2 ^ 256"
  then have paid: "msg_value c = fee s"
    and nov: "unat (lastActionTime (userStats s (msg_sender c))) + 3600 < 2 ^ 256"
    by (simp_all add: COOLDOWN_SECONDS_def)
  from early have "unat (block_timestamp c) < unat (lastActionTime (userStats s (msg_sender c))) + 3600"
    by (simp add: COOLDOWN_SECONDS_def)
  then have "timeLocked_guard c s = Inl ActionLocked" using nov by (rule timeLocked_guard_locked)
  then have "timeLocked c body s = Inl ActionLocked" for body by (rule timeLocked_rejects)
  then show "increment hook c s = Inl ActionLocked" "decrement hook c s = Inl ActionLocked"
    using paid by (simp_all add: increment_def decrement_def onlyPaid_def)
next
  assume "unat (lastActionTime (userStats s (msg_sender c))) + unat COOLDOWN_SECONDS \<le> unat (block_timestamp c)"
  then show "timeLocked_guard c s = Inr ()"
    by (simp add: timeLocked_guard_iff COOLDOWN_SECONDS_def)
next
  assume "increment hook c s = Inr s' \<or> decrement hook c s = Inr s'"
  then show "lastActionTime (userStats s' (msg_sender c)) = block_timestamp c"
    by (auto simp: increment_def decrement_def onlyPaid_def timeLocked_def thenR_eq_Inr
        setLastActionTime_def split: if_splits)
qed

theorem cooldown_guard_witness:
  "increment (\<lambda>x. x) (call_from 1 0 3599) (constructor 9 0) = Inl ActionLocked \<and>
   decrement (\<lambda>x. x) (call_from 1 0 3599) (constructor 9 0) = Inl ActionLocked \<and>
   transact (constructor 9 0) (Tx Increment (call_from 1 0 3599) []) = constructor 9 0 \<and>
   timeLocked_guard (call_from 1 0 3600) (constructor 9 0) = Inr () \<and>
   (\<exists>s'. increment (\<lambda>x. x) (call_from 1 0 3600) (constructor 9 0) = Inr s' \<and>
         lastActionTime (userStats s' 1) = 3600)"
proof -
  let ?s = "constructor 9 0"
  have g: "timeLocked_guard (call_from 1 0 3600) ?s = Inr ()"
    by (simp add: timeLocked_guard_iff call_from_def constructor_def)
  have len: "length (topAddresses ?s) = length (topCounts ?s)" by (simp add: constructor_def)
  have "can_act True (call_from 1 0 3600) ?s" by (simp add: scenario_simps)
  then have "\<exists>s'. increment (\<lambda>x. x) (call_from 1 0 3600) ?s = Inr s'"
    by (simp add: increment_iff[OF len])
  then obtain s' where s': "increment (\<lambda>x. x) (call_from 1 0 3600) ?s = Inr s'" ..
  from cooldown_guard[of "call_from 1 0 3600" ?s "\<lambda>x. x" "[]" s'] s'
  have "lastActionTime (userStats s' 1) = 3600" by (simp add: call_from_def)
  with s' have "\<exists>s'. increment (\<lambda>x. x) (call_from 1 0 3600) ?s = Inr s' \<and> lastActionTime (userStats s' 1) = 3600"
    by blast
  moreover from cooldown_guard[of "call_from 1 0 3599" ?s "\<lambda>x. x" "[]"]
  have "increment (\<lambda>x. x) (call_from 1 0 3599) ?s = Inl ActionLocked \<and>
        decrement (\<lambda>x. x) (call_from 1 0 3599) ?s = Inl ActionLocked \<and>
        transact ?s (Tx Increment (call_from 1 0 3599) []) = ?s"
    by (simp add: call_from_def constructor_def COOLDOWN_SECONDS_def)
  ultimately show ?thesis using g by blast
qed

text \<open>
  C7. With the counter at 0, the body of \<open>decrement\<close> stops at its first statement with
  "Counter already zero"; the call is rejected whatever the guards say, with that reason once
  the payment and cooldown guards pass, and the counter stays 0.
\<close>

theorem decrement_at_zero_rejected:
  assumes "count s = 0"
  shows "decrement_body hook c s = Inl CounterAlreadyZero \<and>
         (\<exists>e. decrement hook c s = Inl e) \<and>
         (msg_value c = fee s \<and> timeLocked_guard c s = Inr () \<longrightarrow> decrement hook c s = Inl CounterAlreadyZero) \<and>
         transact s (Tx Decrement c nested) = s \<and> count (transact s (Tx Decrement c nested)) = 0"
proof -
  have b: "decrement_body hook c s = Inl CounterAlreadyZero" for hook
    using assms by (simp add: decrement_body_def)
  have e: "\<exists>e. decrement hook c s = Inl e" for hook
    using guard_cases[of c s] b[of hook]
    by (auto simp: decrement_def onlyPaid_def timeLocked_def)
  have "decrement hook c s = Inl CounterAlreadyZero" if "msg_value c = fee s \<and> timeLocked_guard c s = Inr ()"
    using that b by (simp add: decrement_def onlyPaid_def timeLocked_def)
  moreover from e[of "\<lambda>s'. foldl transact s' nested"] have "transact s (Tx Decrement c nested) = s"
    by (auto simp: transact.simps)
  ultimately show ?thesis using b e assms by simp
qed

theorem decrement_at_zero_rejected_witness:
  "count (constructor 9 0) = 0 \<and>
   decrement (\<lambda>x. x) (call_from 1 0 3600) (constructor 9 0) = Inl CounterAlreadyZero \<and>
   transact (constructor 9 0) (Tx Decrement (call_from 1 0 3600) []) = constructor 9 0"
proof -
  have g: "timeLocked_guard (call_from 1 0 3600) (constructor 9 0) = Inr ()"
    by (simp add: timeLocked_guard_iff call_from_def constructor_def)
  have z: "count (constructor 9 0) = 0" by (simp add: constructor_def)
  from decrement_at_zero_rejected[OF z, of "\<lambda>x. x" "call_from 1 0 3600" "[]"] g z show ?thesis
    by (simp add: call_from_def constructor_def)
qed

section \<open>Properties of the leaderboard\<close>

text \<open>
  C1. After every sequence of calls, calls made from inside a token receiver included, the
  scores of the leaderboard are in descending order (equal scores, the ties, stand next to
  each other), the list has at most 20 entries, and no address occurs twice.
  Every call of \<open>_updateTopLeaderboard\<close>, in any state whose two arrays have one length and
  hold no address twice, succeeds and leaves such arrays; it keeps the bound of 20 entries; it
  keeps the descending order when the score of the address is not below the score stored
  with it; and ties are stable: the entries of all other addresses keep their order, every
  entry that the entry of the address has moved ahead of has a strictly smaller score, and
  no entry has moved ahead of the entry of an address that was on the list.
\<close>

theorem leaderboard_sorted_bounded_distinct:
  "descending (topCounts (run (constructor d f) ts)) \<and>
   length (topAddresses (run (constructor d f) ts)) \<le> 20 \<and>
   length (topCounts (run (constructor d f) ts)) = length (topAddresses (run (constructor d f) ts)) \<and>
   distinct (topAddresses (run (constructor d f) ts)) \<and>
   (length (topAddresses s) = length (topCounts s) \<and> distinct (topAddresses s) \<longrightarrow>
      (\<exists>s'. updateTopLeaderboard u s = Inr s' \<and>
            length (topAddresses s') = length (topCounts s') \<and>
            distinct (topAddresses s') \<and>
            (length (topAddresses s) \<le> 20 \<longrightarrow> length (topAddresses s') \<le> 20) \<and>
            (descending (topCounts s) \<and>
             (\<forall>x \<in> set (entries s). fst x = u \<longrightarrow> snd x \<le> incrementCount s u) \<longrightarrow>
               descending (topCounts s')) \<and>
            filter (\<lambda>x. fst x \<noteq> u) (entries s')
              = filter (\<lambda>x. fst x \<noteq> u \<and> x \<in> set (entries s')) (entries s) \<and>
            (\<forall>y \<in> set (behind u (entries s')).
                y \<in> set (behind u (entries s)) \<or> snd y < incrementCount s u) \<and>
            (u \<in> set (topAddresses s) \<longrightarrow>
               (\<forall>y \<in> set (ahead u (entries s')). y \<in> set (ahead u (entries s))))))"
proof (intro conjI impI)
  have "state_inv (run (constructor d f) ts)"
    by (intro state_inv_run state_inv_constructor)
  then have inv: "board_inv (run (constructor d f) ts)" by (simp add: state_inv_def)
  from inv show "descending (topCounts (run (constructor d f) ts))"
    and "length (topAddresses (run (constructor d f) ts)) \<le> 20"
    and "length (topCounts (run (constructor d f) ts)) = length (topAddresses (run (constructor d f) ts))"
    and "distinct (topAddresses (run (constructor d f) ts))"
    by (simp_all add: board_inv_def MAX_TOP_def)
next
  assume "length (topAddresses s) = length (topCounts s) \<and> distinct (topAddresses s)"
  then have len: "length (topAddresses s) = length (topCounts s)" and dis: "distinct (topAddresses s)"
    by simp_all
  let ?n = "incrementCount s u"
  have a: "map fst (entries s) = topAddresses s" and c: "map snd (entries s) = topCounts s"
    using len by (simp_all add: entries_def)
  have d: "distinct (map fst (entries s))" using dis a by simp
  obtain s' where up: "updateTopLeaderboard u s = Inr s'"
    and e: "entries s' = update_spec u ?n (entries s)"
    and len': "length (topAddresses s') = length (topCounts s')"
    and dis': "distinct (topAddresses s')"
    by (rule updateTopLeaderboard_call[OF len dis, of u])
  have a': "map fst (entries s') = topAddresses s'" and c': "map snd (entries s') = topCounts s'"
    using len' by (simp_all add: entries_def)
  have b: "length (topAddresses s') \<le> 20" if "length (topAddresses s) \<le> 20"
  proof -
    from that a have "length (entries s) \<le> 20" by (metis length_map)
    then have "length (entries s') \<le> 20" unfolding e by (rule length_update_spec)
    then show ?thesis using a' by (metis length_map)
  qed
  have o: "descending (topCounts s')"
    if "descending (topCounts s) \<and> (\<forall>x \<in> set (entries s). fst x = u \<longrightarrow> snd x \<le> ?n)"
  proof -
    from that c have "descending (map snd (entries s))" by simp
    moreover from that have "\<forall>old. (u, old) \<in> set (entries s) \<longrightarrow> old \<le> ?n" by auto
    ultimately have "descending (map snd (update_spec u ?n (entries s)))"
      by (rule descending_update_spec)
    then show ?thesis using c' e by simp
  qed
  have h: "\<forall>y \<in> set (ahead u (entries s')). y \<in> set (ahead u (entries s))"
    if "u \<in> set (topAddresses s)"
  proof -
    from that a have "u \<in> fst ` set (entries s)" by (metis list.set_map)
    from ahead_update_spec[OF this, of ?n] show ?thesis unfolding e by auto
  qed
  show "\<exists>s'. updateTopLeaderboard u s = Inr s' \<and>
            length (topAddresses s') = length (topCounts s') \<and>
            distinct (topAddresses s') \<and>
            (length (topAddresses s) \<le> 20 \<longrightarrow> length (topAddresses s') \<le> 20) \<and>
            (descending (topCounts s) \<and>
             (\<forall>x \<in> set (entries s). fst x = u \<longrightarrow> snd x \<le> incrementCount s u) \<longrightarrow>
               descending (topCounts s')) \<and>
            filter (\<lambda>x. fst x \<noteq> u) (entries s')
              = filter (\<lambda>x. fst x \<noteq> u \<and> x \<in> set (entries s')) (entries s) \<and>
            (\<forall>y \<in> set (behind u (entries s')).
                y \<in> set (behind u (entries s)) \<or> snd y < incrementCount s u) \<and>
            (u \<in> set (topAddresses s) \<longrightarrow>
               (\<forall>y \<in> set (ahead u (entries s')). y \<in> set (ahead u (entries s))))"
    using up len' dis' b o h updateTopLeaderboard_stable[OF len dis up] by blast
qed

theorem leaderboard_sorted_bounded_distinct_witness:
  "topAddresses (run (constructor 9 0) [Tx Increment (call_from 1 0 3600) [], Tx Increment (call_from 2 0 3600) []]) = [1, 2] \<and>
   topCounts (run (constructor 9 0) [Tx Increment (call_from 1 0 3600) [], Tx Increment (call_from 2 0 3600) []]) = [1, 1] \<and>
   descending (topCounts (run (constructor 9 0) [Tx Increment (call_from 1 0 3600) [], Tx Increment (call_from 2 0 3600) []])) \<and>
   (\<exists>s'. updateTopLeaderboard 2 ((run (constructor 9 0) [Tx Increment (call_from 1 0 3600) [], Tx Increment (call_from 2 0 3600) []])
        \<lparr>incrementCount := (incrementCount (run (constructor 9 0) [Tx Increment (call_from 1 0 3600) [], Tx Increment (call_from 2 0 3600) []]))(2 := 2)\<rparr>) = Inr s' \<and>
      entries s' = [(2, 2), (1, 1)] \<and>
      descending (topCounts s') \<and> distinct (topAddresses s') \<and> length (topAddresses s') \<le> 20 \<and>
      filter (\<lambda>x. fst x \<noteq> 2) (entries s')
        = filter (\<lambda>x. fst x \<noteq> 2 \<and> x \<in> set (entries s')) (entries ((run (constructor 9 0) [Tx Increment (call_from 1 0 3600) [], Tx Increment (call_from 2 0 3600) []])
        \<lparr>incrementCount := (incrementCount (run (constructor 9 0) [Tx Increment (call_from 1 0 3600) [], Tx Increment (call_from 2 0 3600) []]))(2 := 2)\<rparr>)) \<and>
      (1, 1) \<in> set (behind 2 (entries s')) \<and>
      snd (1 :: address, 1 :: uint256) < incrementCount ((run (constructor 9 0) [Tx Increment (call_from 1 0 3600) [], Tx Increment (call_from 2 0 3600) []])
        \<lparr>incrementCount := (incrementCount (run (constructor 9 0) [Tx Increment (call_from 1 0 3600) [], Tx Increment (call_from 2 0 3600) []]))(2 := 2)\<rparr>) 2 \<and>
      ahead 2 (entries s') = [])"
proof -
  let ?R = "(run (constructor 9 0) [Tx Increment (call_from 1 0 3600) [], Tx Increment (call_from 2 0 3600) []])"
  let ?S = "?R\<lparr>incrementCount := (incrementCount ?R)(2 := 2)\<rparr>"
  have r: "topAddresses ?R = [1, 2]" "topCounts ?R = [1, 1]" "incrementCount ?R 1 = 1"
    "incrementCount ?R 2 = 1"
    by (simp_all add: scenario_simps)
  have len: "length (topAddresses ?S) = length (topCounts ?S)" by (simp add: r del: run.simps)
  have es: "entries ?S = [(1, 1), (2, 1)]" by (simp add: entries_def r del: run.simps)
  have e': "update_spec 2 (incrementCount ?S 2) (entries ?S) = [(2, 2), (1, 1)]"
    unfolding es by (simp add: update_spec_def place_def word_le_nat_alt word_less_nat_alt)
  have up: "updateTopLeaderboard 2 ?S = Inr (?S\<lparr>topAddresses := [2, 1], topCounts := [2, 1]\<rparr>)"
    unfolding updateTopLeaderboard_entries[OF len] e' by simp
  have hyp: "length (topAddresses ?S) = length (topCounts ?S) \<and> distinct (topAddresses ?S)"
    by (simp add: r del: run.simps)
  from leaderboard_sorted_bounded_distinct[of 9 0
      "[Tx Increment (call_from 1 0 3600) [], Tx Increment (call_from 2 0 3600) []]" ?S 2] hyp
  obtain s' where d: "descending (topCounts ?R)"
    and s': "updateTopLeaderboard 2 ?S = Inr s'"
    and dis: "distinct (topAddresses s')"
    and bound: "length (topAddresses ?S) \<le> 20 \<longrightarrow> length (topAddresses s') \<le> 20"
    and ord: "descending (topCounts ?S) \<and>
             (\<forall>x \<in> set (entries ?S). fst x = 2 \<longrightarrow> snd x \<le> incrementCount ?S 2) \<longrightarrow>
               descending (topCounts s')"
    and others: "filter (\<lambda>x. fst x \<noteq> 2) (entries s')
              = filter (\<lambda>x. fst x \<noteq> 2 \<and> x \<in> set (entries s')) (entries ?S)"
    by blast
  from s' up have eq: "s' = ?S\<lparr>topAddresses := [2, 1], topCounts := [2, 1]\<rparr>" by simp
  from bound have b: "length (topAddresses s') \<le> 20" by (simp add: r del: run.simps)
  have "descending (topCounts ?S) \<and>
             (\<forall>x \<in> set (entries ?S). fst x = 2 \<longrightarrow> snd x \<le> incrementCount ?S 2)"
    unfolding es by (simp add: r word_le_nat_alt del: run.simps)
  with ord have o: "descending (topCounts s')" by (rule mp)
  have e: "entries s' = [(2, 2), (1, 1)]" unfolding eq by (simp add: entries_def)
  have "(1, 1) \<in> set (behind 2 (entries s'))" "ahead 2 (entries s') = []"
    "snd (1 :: address, 1 :: uint256) < incrementCount ?S 2"
    unfolding e by (simp_all add: behind_def ahead_def)
  with r d s' dis b o others e show ?thesis by blast
qed

text \<open>
  Equal scores do occur: two addresses with one action each stand on the leaderboard with
  the score 1, so the descending order is not a strict one.
\<close>

lemma leaderboard_ties_occur:
  "topCounts (run (constructor 9 0) [Tx Increment (call_from 1 0 3600) [], Tx Increment (call_from 2 0 3600) []]) = [1, 1] \<and>
   \<not> strictly_descending
       (topCounts (run (constructor 9 0) [Tx Increment (call_from 1 0 3600) [], Tx Increment (call_from 2 0 3600) []]))"
  by (simp add: scenario_simps strictly_descending_def)

text \<open>
  C10. In every reachable state, re-entrant calls included, the score stored at an index of
  the leaderboard is the number of successful actions of the address at that index, its
  increments plus its decrements; a successful \<open>increment\<close> and a successful \<open>decrement\<close>
  (with a token receiver that calls nothing) each add 1 to the caller's action count, and
  \<open>decrement\<close> leaves the increments, from which the tier is computed, as they were.
\<close>

theorem leaderboard_score_counts_actions:
  "(\<forall>i < length (topAddresses (run (constructor d f) ts)).
      unat (topCounts (run (constructor d f) ts) ! i)
        = unat (increments (userStats (run (constructor d f) ts) (topAddresses (run (constructor d f) ts) ! i)))
        + unat (decrements (userStats (run (constructor d f) ts) (topAddresses (run (constructor d f) ts) ! i)))) \<and>
   (length (topAddresses s) = length (topCounts s) \<and> increment (\<lambda>x. x) c s = Inr s' \<longrightarrow>
      incrementCount s' (msg_sender c) = incrementCount s (msg_sender c) + 1 \<and>
      unat (incrementCount s' (msg_sender c)) = unat (incrementCount s (msg_sender c)) + 1) \<and>
   (length (topAddresses s) = length (topCounts s) \<and> decrement (\<lambda>x. x) c s = Inr s' \<longrightarrow>
      incrementCount s' (msg_sender c) = incrementCount s (msg_sender c) + 1 \<and>
      unat (incrementCount s' (msg_sender c)) = unat (incrementCount s (msg_sender c)) + 1 \<and>
      increments (userStats s' (msg_sender c)) = increments (userStats s (msg_sender c)))"
proof (intro conjI allI impI)
  let ?s = "run (constructor d f) ts"
  fix i assume i: "i < length (topAddresses ?s)"
  have si: "state_inv ?s" by (intro state_inv_run state_inv_constructor)
  then have inv: "board_inv ?s" and st: "stats_inv ?s" by (simp_all add: state_inv_def)
  from inv i have "i < length (entries ?s)" by (simp add: board_inv_def entries_def)
  then have "entries ?s ! i \<in> set (entries ?s)" by (rule nth_mem)
  moreover from inv i have "entries ?s ! i = (topAddresses ?s ! i, topCounts ?s ! i)"
    by (simp add: board_inv_def entries_def)
  ultimately have "topCounts ?s ! i = incrementCount ?s (topAddresses ?s ! i)"
    using inv by (auto simp: board_inv_def)
  with st show "unat (topCounts ?s ! i)
        = unat (increments (userStats ?s (topAddresses ?s ! i)))
        + unat (decrements (userStats ?s (topAddresses ?s ! i)))"
    by (simp add: stats_inv_def)
next
  assume "length (topAddresses s) = length (topCounts s) \<and> increment (\<lambda>x. x) c s = Inr s'"
  then have can: "can_act True c s" and s': "s' = outcome (\<lambda>x. x) True c s"
    by (auto simp: increment_iff)
  from can have ov: "unat (incrementCount s (msg_sender c)) + 1 < 2 ^ 256" by (simp add: can_act_def)
  show "incrementCount s' (msg_sender c) = incrementCount s (msg_sender c) + 1"
    by (simp add: s' outcome_plain_board)
  show "unat (incrementCount s' (msg_sender c)) = unat (incrementCount s (msg_sender c)) + 1"
    using ov by (simp add: s' outcome_plain_board unat_plus_one)
next
  assume "length (topAddresses s) = length (topCounts s) \<and> decrement (\<lambda>x. x) c s = Inr s'"
  then have can: "can_act False c s" and s': "s' = outcome (\<lambda>x. x) False c s"
    by (auto simp: decrement_iff)
  from can have ov: "unat (incrementCount s (msg_sender c)) + 1 < 2 ^ 256" by (simp add: can_act_def)
  show "incrementCount s' (msg_sender c) = incrementCount s (msg_sender c) + 1"
    by (simp add: s' outcome_plain_board)
  show "unat (incrementCount s' (msg_sender c)) = unat (incrementCount s (msg_sender c)) + 1"
    using ov by (simp add: s' outcome_plain_board unat_plus_one)
  show "increments (userStats s' (msg_sender c)) = increments (userStats s (msg_sender c))"
    by (simp add: s' outcome_plain_board)
qed

theorem leaderboard_score_counts_actions_witness:
  "topAddresses (run (constructor 9 0) [Tx Increment (call_from 1 0 3600) [], Tx Decrement (call_from 2 0 3600) []]) = [1, 2] \<and>
   unat (topCounts (run (constructor 9 0) [Tx Increment (call_from 1 0 3600) [], Tx Decrement (call_from 2 0 3600) []]) ! 1) = 1 \<and>
   unat (increments (userStats (run (constructor 9 0) [Tx Increment (call_from 1 0 3600) [], Tx Decrement (call_from 2 0 3600) []]) 2)) = 0 \<and>
   unat (decrements (userStats (run (constructor 9 0) [Tx Increment (call_from 1 0 3600) [], Tx Decrement (call_from 2 0 3600) []]) 2)) = 1 \<and>
   decrement (\<lambda>x. x) (call_from 2 0 3600) (run (constructor 9 0) [Tx Increment (call_from 1 0 3600) []])
     = Inr (run (constructor 9 0) [Tx Increment (call_from 1 0 3600) [], Tx Decrement (call_from 2 0 3600) []]) \<and>
   incrementCount (run (constructor 9 0) [Tx Increment (call_from 1 0 3600) [], Tx Decrement (call_from 2 0 3600) []]) 2 = 1 \<and>
   increment (\<lambda>x. x) (call_from 1 0 3600) (constructor 9 0) = Inr (run (constructor 9 0) [Tx Increment (call_from 1 0 3600) []]) \<and>
   incrementCount (run (constructor 9 0) [Tx Increment (call_from 1 0 3600) []]) 1 = 1"
proof -
  let ?s1 = "run (constructor 9 0) [Tx Increment (call_from 1 0 3600) []]"
  let ?s2 = "run (constructor 9 0) [Tx Increment (call_from 1 0 3600) [], Tx Decrement (call_from 2 0 3600) []]"
  have l0: "length (topAddresses (constructor 9 0)) = length (topCounts (constructor 9 0))"
    by (simp add: constructor_def)
  have "state_inv ?s1" by (intro state_inv_run state_inv_constructor)
  then have l1: "length (topAddresses ?s1) = length (topCounts ?s1)"
    by (simp add: state_inv_def board_inv_def)
  have can: "can_act False (call_from 2 0 3600) ?s1"
    by (simp add: scenario_simps)
  have s2: "?s2 = outcome (\<lambda>x. x) False (call_from 2 0 3600) ?s1"
    using can l1 by (simp add: transact_decrement)
  have d: "decrement (\<lambda>x. x) (call_from 2 0 3600) ?s1 = Inr ?s2"
    unfolding s2 using can decrement_iff[OF l1] by blast
  have a: "topAddresses ?s2 = [1, 2]" by (simp add: scenario_simps)
  have can1: "can_act True (call_from 1 0 3600) (constructor 9 0)"
    by (simp add: scenario_simps)
  have s1: "?s1 = outcome (\<lambda>x. x) True (call_from 1 0 3600) (constructor 9 0)"
    using can1 l0 by (simp add: transact_increment)
  have i1: "increment (\<lambda>x. x) (call_from 1 0 3600) (constructor 9 0) = Inr ?s1"
    unfolding s1 using can1 increment_iff[OF l0] by blast
  from leaderboard_score_counts_actions[of 9 0 "[]" "constructor 9 0" "call_from 1 0 3600" ?s1] i1 l0
  have c1: "incrementCount ?s1 1 = 1" by (simp add: call_from_def constructor_def)
  from leaderboard_score_counts_actions[of 9 0
      "[Tx Increment (call_from 1 0 3600) [], Tx Decrement (call_from 2 0 3600) []]"
      ?s1 "call_from 2 0 3600" ?s2] d l1 a
  have "topAddresses ?s2 = [1, 2] \<and>
   unat (topCounts ?s2 ! 1) = 1 \<and>
   unat (increments (userStats ?s2 2)) = 0 \<and>
   unat (decrements (userStats ?s2 2)) = 1 \<and>
   decrement (\<lambda>x. x) (call_from 2 0 3600) ?s1 = Inr ?s2 \<and>
   incrementCount ?s2 2 = 1"
    by (simp add: scenario_simps)
  with i1 c1 show ?thesis by blast
qed

section \<open>Properties of the badges\<close>

text \<open>
  C2. The stored tier of an address never decreases along any sequence of calls made in a
  reachable state, calls made from inside a token receiver included: once it has reached a
  value \<open>T > 0\<close> it never reads below \<open>T\<close> again. \<open>_assignOrUpdateBadge\<close> replaces the stored
  tier by the newly computed one only when that is strictly greater.
\<close>

theorem badge_tier_ratchet:
  "(T \<le> badgeTier (userStats (run (constructor d f) ts) a) \<and> 0 < T \<longrightarrow>
      T \<le> badgeTier (userStats (run (run (constructor d f) ts) ts') a)) \<and>
   badgeTier (userStats (run (constructor d f) ts) a)
     \<le> badgeTier (userStats (run (run (constructor d f) ts) ts') a) \<and>
   (assignOrUpdateBadge (\<lambda>x. x) c a s = Inr s' \<longrightarrow>
      badgeTier (userStats s' a)
        = (if badgeTier (userStats s a) < determineTier s (increments (userStats s a))
           then determineTier s (increments (userStats s a))
           else badgeTier (userStats s a)))"
proof (intro conjI impI)
  let ?R = "run (constructor d f) ts"
  have "state_inv ?R" by (intro state_inv_run state_inv_constructor)
  then have len: "length (topAddresses ?R) = length (topCounts ?R)"
    by (simp add: state_inv_def board_inv_def)
  have m: "T \<le> badgeTier (userStats (run ?R ts') a)" if "T \<le> badgeTier (userStats ?R a)" for T
  proof -
    from that len have "tier_at_least a T ?R" by (simp add: tier_at_least_def)
    then have "tier_at_least a T (run ?R ts')" by (rule tier_at_least_run)
    then show ?thesis by (simp add: tier_at_least_def)
  qed
  from m[of "badgeTier (userStats ?R a)"]
  show "badgeTier (userStats ?R a) \<le> badgeTier (userStats (run ?R ts') a)" by simp
  assume "T \<le> badgeTier (userStats ?R a) \<and> 0 < T"
  then show "T \<le> badgeTier (userStats (run ?R ts') a)" using m by simp
next
  assume "assignOrUpdateBadge (\<lambda>x. x) c a s = Inr s'"
  then show "badgeTier (userStats s' a)
        = (if badgeTier (userStats s a) < determineTier s (increments (userStats s a))
           then determineTier s (increments (userStats s a))
           else badgeTier (userStats s a))"
    by (auto simp: assignOrUpdateBadge_iff setBadgeTier_def emit_def split: if_splits)
qed

theorem badge_tier_ratchet_witness:
  "badgeTier (userStats (run (constructor 9 0) ten_increments) 1) = 1 \<and>
   (1 :: uint256) \<le> badgeTier (userStats (run (run (constructor 9 0) ten_increments)
        [Tx Decrement (call_from 1 0 39600) [],
         Tx (SetBadgeThresholds 100 200 300 400 500 600 700) (call_from 9 0 39600) [],
         Tx Decrement (call_from 1 0 43200) []]) 1) \<and>
   (\<exists>s'. assignOrUpdateBadge (\<lambda>x. x) (call_from 1 0 0) 1
            ((constructor 9 0)\<lparr>userStats := \<lambda>_. \<lparr>increments = 30, decrements = 0, lastActionTime = 0, badgeTier = 1\<rparr>,
                               userTokenId := \<lambda>_. 1\<rparr>) = Inr s' \<and>
         badgeTier (userStats s' 1) = 2)"
proof -
  let ?s0 = "(constructor 9 0)\<lparr>userStats := \<lambda>_. \<lparr>increments = 30, decrements = 0, lastActionTime = 0, badgeTier = 1\<rparr>,
                               userTokenId := \<lambda>_. 1\<rparr>"
  have t: "badgeTier (userStats (run (constructor 9 0) ten_increments) 1) = 1"
    by (simp add: ten_increments_def scenario_simps)
  have "\<exists>s'. assignOrUpdateBadge (\<lambda>x. x) (call_from 1 0 0) 1 ?s0 = Inr s'"
    by (simp add: assignOrUpdateBadge_iff determineTier_def constructor_def
        word_le_nat_alt word_less_nat_alt)
  then obtain s' where s': "assignOrUpdateBadge (\<lambda>x. x) (call_from 1 0 0) 1 ?s0 = Inr s'" ..
  from badge_tier_ratchet[of 1 9 0 "[]" 1 "[]" "call_from 1 0 0" ?s0 s'] s'
  have "badgeTier (userStats s' 1) = 2"
    by (simp add: determineTier_def constructor_def word_le_nat_alt word_less_nat_alt)
  with s' have e: "\<exists>s'. assignOrUpdateBadge (\<lambda>x. x) (call_from 1 0 0) 1 ?s0 = Inr s' \<and> badgeTier (userStats s' 1) = 2"
    by blast
  from badge_tier_ratchet[of 1 9 0 ten_increments 1
      "[Tx Decrement (call_from 1 0 39600) [],
        Tx (SetBadgeThresholds 100 200 300 400 500 600 700) (call_from 9 0 39600) [],
        Tx Decrement (call_from 1 0 43200) []]"] t
  have "(1 :: uint256) \<le> badgeTier (userStats (run (run (constructor 9 0) ten_increments)
        [Tx Decrement (call_from 1 0 39600) [],
         Tx (SetBadgeThresholds 100 200 300 400 500 600 700) (call_from 9 0 39600) [],
         Tx Decrement (call_from 1 0 43200) []]) 1)"
    by simp
  with t e show ?thesis by blast
qed

text \<open>
  While no token receiver calls back into the contract, the number of tokens minted for an
  address is 0 as long as its tier is 0 and 1 afterwards, and the address has a token id
  exactly when its tier is positive.
\<close>

lemma one_badge_without_reentrancy:
  assumes "list_all plain ts"
  shows "mints a (run (constructor d f) ts) \<le> 1"
    and "mints a (run (constructor d f) ts) = 1 \<longleftrightarrow> userTokenId (run (constructor d f) ts) a \<noteq> 0"
proof -
  have "length (topAddresses (constructor d f)) = length (topCounts (constructor d f))"
    by (simp add: constructor_def)
  from badge_inv_plain_run[OF this badge_inv_constructor assms]
  have "badge_inv (run (constructor d f) ts)" by simp
  then show "mints a (run (constructor d f) ts) \<le> 1"
    and "mints a (run (constructor d f) ts) = 1 \<longleftrightarrow> userTokenId (run (constructor d f) ts) a \<noteq> 0"
    by (simp_all add: badge_inv_def)
qed

text \<open>
  C3 does not hold for the contract. \<open>_assignOrUpdateBadge\<close> writes the new tier, then calls
  \<open>_safeMint\<close>, and writes \<open>userTokenId\<close> only after that; \<open>timeLocked\<close> writes
  \<open>lastActionTime\<close> after the whole body. A receiver contract (address 5) that calls
  \<open>increment\<close> once more from \<open>onERC721Received\<close> passes the cooldown guard again and, the
  owner having set the thresholds to 1, 2, ..., 7, reaches the next tier with \<open>userTokenId\<close>
  still 0: a second token is minted for the same address. Tokens 1 and 2 both belong to
  address 5, and \<open>userTokenId\<close> ends as 1.
\<close>

theorem badge_minted_twice_by_reentrancy:
  "mints 5 (run (constructor 9 0) reentrant_mint) = 2 \<and>
   tokenOwner (run (constructor 9 0) reentrant_mint) 1 = 5 \<and>
   tokenOwner (run (constructor 9 0) reentrant_mint) 2 = 5 \<and>
   userTokenId (run (constructor 9 0) reentrant_mint) 5 = 1 \<and>
   badgeTier (userStats (run (constructor 9 0) reentrant_mint) 5) = 2 \<and>
   increments (userStats (run (constructor 9 0) reentrant_mint) 5) = 2"
  by (simp add: reentrant_mint_def scenario_simps mints_def is_mint_to_def)

section \<open>Admission to a full leaderboard\<close>

text \<open>
  C6. With 20 entries on the leaderboard and the address not among them, the update never
  fails; the address is on the leaderboard afterwards exactly when its score is strictly
  greater than the last score. Otherwise the state is unchanged. When it is admitted, the
  code writes the new entry over the last slot and runs the bubble loop from there; the
  result is the old list without its last entry, with the new entry moved left past the
  entries of smaller score: 20 entries again, the old addresses but the last one, and sorted
  if the list was. Updates for 21 addresses with the scores 1 to 21, in this order, from the
  empty leaderboard leave the scores 21 down to 2, and the address with score 1 is gone.
\<close>

theorem full_board_admission:
  assumes la: "length (topAddresses s) = MAX_TOP" and lc: "length (topCounts s) = MAX_TOP"
    and nu: "user \<notin> set (topAddresses s)"
  shows "(\<exists>s'. updateTopLeaderboard user s = Inr s' \<and>
            (user \<in> set (topAddresses s') \<longleftrightarrow> last (topCounts s) < incrementCount s user) \<and>
            (incrementCount s user \<le> last (topCounts s) \<longrightarrow> s' = s) \<and>
            (last (topCounts s) < incrementCount s user \<longrightarrow>
               updateTopLeaderboard user s
                 = thenR (bubbleUp (MAX_TOP - 1) ((topAddresses s)[MAX_TOP - 1 := user])
                            ((topCounts s)[MAX_TOP - 1 := incrementCount s user]))
                     (\<lambda>(as', cs'). Inr (s\<lparr>topAddresses := as', topCounts := cs'\<rparr>)) \<and>
               entries s' = place (butlast (entries s)) (user, incrementCount s user) \<and>
               length (topAddresses s') = MAX_TOP \<and> length (topCounts s') = MAX_TOP \<and>
               set (topAddresses s') = insert user (set (butlast (topAddresses s))) \<and>
               (descending (topCounts s) \<longrightarrow> descending (topCounts s')))) \<and>
         (case updates ascending_21 (constructor 9 0) of
            Inl e \<Rightarrow> False
          | Inr s' \<Rightarrow>
              topAddresses s' = [21, 20, 19, 18, 17, 16, 15, 14, 13, 12, 11, 10, 9, 8, 7, 6, 5, 4, 3, 2] \<and>
              topCounts s' = [21, 20, 19, 18, 17, 16, 15, 14, 13, 12, 11, 10, 9, 8, 7, 6, 5, 4, 3, 2])"
proof (intro conjI)
  let ?c = "incrementCount s user"
  let ?es = "entries s"
  let ?es' = "update_spec user ?c ?es"
  let ?s' = "s\<lparr>topAddresses := map fst ?es', topCounts := map snd ?es'\<rparr>"
  have leq: "length (topAddresses s) = length (topCounts s)" using la lc by simp
  have up: "updateTopLeaderboard user s = Inr ?s'"
    using leq by (rule updateTopLeaderboard_entries)
  have sp: "?es' = (if ?c \<le> last (topCounts s) then ?es else place (butlast ?es) (user, ?c))"
    using la lc nu by (rule full_board_update)
  have a: "map fst ?es = topAddresses s" and c: "map snd ?es = topCounts s"
    using leq by (simp_all add: entries_def)
  have len: "length ?es = 20" using la lc by (simp add: entries_def MAX_TOP_def)
  have rej: "?s' = s" if "?c \<le> last (topCounts s)"
    using that by (simp add: sp a c)
  have e': "entries ?s' = ?es'" by (simp add: entries_def)
  have k: "?es' = place (butlast ?es) (user, ?c)" if "last (topCounts s) < ?c"
  proof -
    from that have "\<not> ?c \<le> last (topCounts s)" by simp
    with sp show ?thesis by presburger
  qed
  have adm: "entries ?s' = place (butlast ?es) (user, ?c)" if "last (topCounts s) < ?c"
    using e' k[OF that] by (rule trans)
  have mem: "user \<in> set (topAddresses ?s') \<longleftrightarrow> last (topCounts s) < ?c"
  proof (cases "?c \<le> last (topCounts s)")
    case True
    with nu show ?thesis by (simp add: sp a)
  next
    case False
    then have "user \<in> fst ` set (place (butlast ?es) (user, ?c))"
      by (simp add: set_place)
    with False show ?thesis by (simp add: sp)
  qed
  have code: "updateTopLeaderboard user s
                 = thenR (bubbleUp (MAX_TOP - 1) ((topAddresses s)[MAX_TOP - 1 := user])
                            ((topCounts s)[MAX_TOP - 1 := ?c]))
                     (\<lambda>(as', cs'). Inr (s\<lparr>topAddresses := as', topCounts := cs'\<rparr>))"
    if "last (topCounts s) < ?c"
  proof -
    from nu have "scanFor user ?c 0 (topAddresses s) (topCounts s) = None"
      by (intro scanFor_absent) simp
    moreover have "topCounts s \<noteq> []" using lc by (auto simp: MAX_TOP_def)
    moreover from this have "topCounts s ! (length (topCounts s) - 1) = last (topCounts s)"
      by (simp add: last_conv_nth)
    moreover have "MAX_TOP - 1 < MAX_TOP" by (simp add: MAX_TOP_def)
    ultimately show ?thesis
      using that la lc by (simp add: updateTopLeaderboard_def Let_def)
  qed
  have stl: "set (topAddresses ?s') = insert user (set (butlast (topAddresses s)))"
    if "last (topCounts s) < ?c"
  proof -
    have "map fst (butlast ?es) = butlast (topAddresses s)"
      by (simp add: map_butlast a)
    then have "fst ` set (butlast ?es) = set (butlast (topAddresses s))"
      by (metis list.set_map)
    then show ?thesis by (simp add: k[OF that] set_place)
  qed
  have dsc: "descending (topCounts ?s')" if "last (topCounts s) < ?c" "descending (topCounts s)"
  proof -
    from that(2) have "descending (butlast (map snd ?es))"
      unfolding c by (metis append_butlast_last_id butlast.simps(1) sorted_wrt_append)
    then have "descending (map snd (butlast ?es))" by (simp add: map_butlast)
    then have "descending (map snd (place (butlast ?es) (user, ?c)))" by (rule descending_place)
    then show ?thesis by (simp add: k[OF that(1)])
  qed
  have lens: "length (topAddresses ?s') = MAX_TOP \<and> length (topCounts ?s') = MAX_TOP"
    if "last (topCounts s) < ?c"
    using len by (simp add: k[OF that] length_place MAX_TOP_def)
  show "\<exists>s'. updateTopLeaderboard user s = Inr s' \<and>
            (user \<in> set (topAddresses s') \<longleftrightarrow> last (topCounts s) < ?c) \<and>
            (?c \<le> last (topCounts s) \<longrightarrow> s' = s) \<and>
            (last (topCounts s) < ?c \<longrightarrow>
               updateTopLeaderboard user s
                 = thenR (bubbleUp (MAX_TOP - 1) ((topAddresses s)[MAX_TOP - 1 := user])
                            ((topCounts s)[MAX_TOP - 1 := ?c]))
                     (\<lambda>(as', cs'). Inr (s\<lparr>topAddresses := as', topCounts := cs'\<rparr>)) \<and>
               entries s' = place (butlast ?es) (user, ?c) \<and>
               length (topAddresses s') = MAX_TOP \<and> length (topCounts s') = MAX_TOP \<and>
               set (topAddresses s') = insert user (set (butlast (topAddresses s))) \<and>
               (descending (topCounts s) \<longrightarrow> descending (topCounts s')))"
    using up mem rej adm code stl dsc lens by (intro exI[of _ ?s']) blast
  show "case updates ascending_21 (constructor 9 0) of
            Inl e \<Rightarrow> False
          | Inr s' \<Rightarrow>
              topAddresses s' = [21, 20, 19, 18, 17, 16, 15, 14, 13, 12, 11, 10, 9, 8, 7, 6, 5, 4, 3, 2] \<and>
              topCounts s' = [21, 20, 19, 18, 17, 16, 15, 14, 13, 12, 11, 10, 9, 8, 7, 6, 5, 4, 3, 2]"
    by (rule scenario_21)
qed

theorem full_board_admission_witness:
  "length (topAddresses full_board) = MAX_TOP \<and> length (topCounts full_board) = MAX_TOP \<and>
   21 \<notin> set (topAddresses full_board) \<and> 22 \<notin> set (topAddresses full_board) \<and>
   last (topCounts full_board) < incrementCount full_board 21 \<and>
   (\<exists>s'. updateTopLeaderboard 21 full_board = Inr s' \<and> 21 \<in> set (topAddresses s') \<and>
         entries s' = place (butlast (entries full_board)) (21, 21) \<and>
         topAddresses s' = [21, 20, 19, 18, 17, 16, 15, 14, 13, 12, 11, 10, 9, 8, 7, 6, 5, 4, 3, 2]) \<and>
   update 22 1 full_board = Inr (full_board\<lparr>incrementCount := (incrementCount full_board)(22 := 1)\<rparr>)"
proof -
  have l: "length (topAddresses full_board) = MAX_TOP" "length (topCounts full_board) = MAX_TOP"
    by (simp_all add: full_board_def MAX_TOP_def)
  have n: "21 \<notin> set (topAddresses full_board)" "22 \<notin> set (topAddresses full_board)"
    by (simp_all add: full_board_def)
  have gt: "last (topCounts full_board) < incrementCount full_board 21"
    by (simp add: full_board_def word_less_nat_alt)
  have c: "incrementCount full_board 21 = 21" by (simp add: full_board_def)
  from full_board_admission[OF l n(1)] gt obtain s' where
    s': "updateTopLeaderboard 21 full_board = Inr s'" "21 \<in> set (topAddresses s')"
      "entries s' = place (butlast (entries full_board)) (21, 21)"
      "length (topAddresses s') = MAX_TOP" "length (topCounts s') = MAX_TOP"
    unfolding c by blast
  from s'(4,5) have "topAddresses s' = map fst (entries s')" by (simp add: entries_def)
  also have "\<dots> = [21, 20, 19, 18, 17, 16, 15, 14, 13, 12, 11, 10, 9, 8, 7, 6, 5, 4, 3, 2]"
    unfolding s'(3) by (simp add: entries_def full_board_def place_def word_less_nat_alt)
  finally have t: "topAddresses s' = [21, 20, 19, 18, 17, 16, 15, 14, 13, 12, 11, 10, 9, 8, 7, 6, 5, 4, 3, 2]" .
  let ?fb = "full_board\<lparr>incrementCount := (incrementCount full_board)(22 := 1)\<rparr>"
  have l2: "length (topAddresses ?fb) = MAX_TOP" "length (topCounts ?fb) = MAX_TOP"
    and n2: "22 \<notin> set (topAddresses ?fb)"
    using l n by simp_all
  have le: "incrementCount ?fb 22 \<le> last (topCounts ?fb)"
    by (simp add: full_board_def word_le_nat_alt)
  from full_board_admission[OF l2 n2] le
  have "updateTopLeaderboard 22 ?fb = Inr ?fb" by auto
  then have "update 22 1 full_board = Inr ?fb" by (simp add: update_def)
  with l n gt s'(1,2,3) t show ?thesis by blast
qed

section \<open>Properties of the tier computation\<close>

text \<open>
  C8. With the thresholds at the values the constructor gives them, \<open>_determineTier\<close> is the
  table lookup of the specification, each threshold reached inclusively; it depends on the
  state through the thresholds only. Ten increments by one address from the fresh state,
  with fee 0 and an hour between the calls, leave the counter at 10, the address with 10
  increments and tier 1, and the leaderboard with that one address and the score 10.
\<close>

theorem tier_of_increments:
  "(thresholds s = map fst tier_table \<longrightarrow> determineTier s n = recompute_spec n) \<and>
   (thresholds s = thresholds s' \<longrightarrow> determineTier s n = determineTier s' n) \<and>
   thresholds (constructor d f) = map fst tier_table \<and>
   count (run (constructor d 0) ten_increments) = 10 \<and>
   increments (userStats (run (constructor d 0) ten_increments) 1) = 10 \<and>
   badgeTier (userStats (run (constructor d 0) ten_increments) 1) = 1 \<and>
   topAddresses (run (constructor d 0) ten_increments) = [1] \<and>
   topCounts (run (constructor d 0) ten_increments) = [10]"
proof (intro conjI impI)
  show "determineTier s n = recompute_spec n" if "thresholds s = map fst tier_table"
    using that by (rule determineTier_table)
  show "determineTier s n = determineTier s' n" if "thresholds s = thresholds s'"
    using that by (rule determineTier_pure)
  show "thresholds (constructor d f) = map fst tier_table"
    by (simp add: thresholds_def constructor_def tier_table_def)
  show "count (run (constructor d 0) ten_increments) = 10"
    by (simp add: ten_increments_def scenario_simps)
  show "increments (userStats (run (constructor d 0) ten_increments) 1) = 10"
    by (simp add: ten_increments_def scenario_simps)
  show "badgeTier (userStats (run (constructor d 0) ten_increments) 1) = 1"
    by (simp add: ten_increments_def scenario_simps)
  show "topAddresses (run (constructor d 0) ten_increments) = [1]"
    by (simp add: ten_increments_def scenario_simps)
  show "topCounts (run (constructor d 0) ten_increments) = [10]"
    by (simp add: ten_increments_def scenario_simps)
qed

theorem tier_of_increments_witness:
  "thresholds (constructor 9 0) = map fst tier_table \<and>
   determineTier (constructor 9 0) 9 = 0 \<and> determineTier (constructor 9 0) 10 = 1 \<and>
   determineTier (constructor 9 0) 24 = 1 \<and> determineTier (constructor 9 0) 25 = 2 \<and>
   determineTier (constructor 9 0) 50 = 3 \<and> determineTier (constructor 9 0) 100 = 4 \<and>
   determineTier (constructor 9 0) 250 = 5 \<and> determineTier (constructor 9 0) 500 = 6 \<and>
   determineTier (constructor 9 0) 999 = 6 \<and> determineTier (constructor 9 0) 1000 = 7 \<and>
   determineTier (constructor 9 5) 1000 = 7"
proof -
  have t: "thresholds (constructor 9 0) = map fst tier_table"
    by (simp add: thresholds_def constructor_def tier_table_def)
  have t': "thresholds (constructor 9 5) = thresholds (constructor 9 0)"
    by (simp add: thresholds_def constructor_def)
  have r: "recompute_spec 9 = 0" "recompute_spec 10 = 1" "recompute_spec 24 = 1" "recompute_spec 25 = 2"
    "recompute_spec 50 = 3" "recompute_spec 100 = 4" "recompute_spec 250 = 5" "recompute_spec 500 = 6"
    "recompute_spec 999 = 6" "recompute_spec 1000 = 7"
    by (simp_all add: recompute_spec_def tier_table_def word_le_nat_alt)
  from tier_of_increments[of "constructor 9 0" 9] tier_of_increments[of "constructor 9 0" 10]
    tier_of_increments[of "constructor 9 0" 24] tier_of_increments[of "constructor 9 0" 25]
    tier_of_increments[of "constructor 9 0" 50] tier_of_increments[of "constructor 9 0" 100]
    tier_of_increments[of "constructor 9 0" 250] tier_of_increments[of "constructor 9 0" 500]
    tier_of_increments[of "constructor 9 0" 999] tier_of_increments[of "constructor 9 0" 1000]
    tier_of_increments[of "constructor 9 5" 1000 "constructor 9 0"] t t' r
  show ?thesis by simp
qed

section \<open>Properties of the client\<close>

text \<open>
  With the guard of the second copy of the client, at most one refresh cycle is in flight
  after any sequence of events.
\<close>

lemma guarded_step_inv:
  assumes "in_flight s = (if isRefreshing s then 1 else 0)"
  shows "in_flight (client_step refresh_begin_guarded refresh_end_guarded s e)
           = (if isRefreshing (client_step refresh_begin_guarded refresh_end_guarded s e) then 1 else 0)"
  using assms
  by (cases e)
    (auto simp: refresh_begin_guarded_def refresh_end_guarded_def startAutoRefresh_def
      stopAutoRefresh_def split: if_splits)

lemma guarded_foldl_inv:
  "in_flight s = (if isRefreshing s then 1 else 0) \<Longrightarrow>
   in_flight (foldl (client_step refresh_begin_guarded refresh_end_guarded) s evs)
     = (if isRefreshing (foldl (client_step refresh_begin_guarded refresh_end_guarded) s evs) then 1 else 0)"
proof (induction evs arbitrary: s)
  case Nil
  then show ?case by simp
next
  case (Cons e evs)
  from guarded_step_inv[OF Cons.prems, of e] show ?case
    by (simp only: foldl_Cons Cons.IH)
qed

lemma guarded_single_flight: "in_flight (run_guarded evs) \<le> 1"
proof -
  have "in_flight client_init = (if isRefreshing client_init then 1 else 0)"
    by (simp add: client_init_def)
  from guarded_foldl_inv[OF this, of evs] show ?thesis
    by (simp add: run_guarded_def split: if_splits)
qed

text \<open>
  C9. In main.js the interval callback has no guard: when the timer fires twice before the
  reads of the first cycle have settled, two refresh cycles are in flight.
\<close>

theorem main_js_refresh_cycles_overlap:
  "in_flight (run_main [SetUserAddress (Some ''0xA''), StartAutoRefresh, TimerFires, TimerFires]) = 2"
  by (simp add: run_main_def client_init_def startAutoRefresh_def refresh_begin_main_def)

end
